theory Spec2Isabelle
  imports Main
begin

section \<open>Data model (the declarations of Task and ProposedChange, src/constants.ts)\<close>

text \<open>
  The fields \<open>startDate\<close> and \<open>endDate\<close> of a task are strings, documented as
  \<^verbatim>\<open>YYYY-MM-DD\<close>. The scheduling code never inspects their characters: it hands
  them to \<^verbatim>\<open>new Date(s)\<close> and writes back \<^verbatim>\<open>d.toISOString().split('T')[0]\<close>.
  A date string is therefore modelled by what the \<^verbatim>\<open>Date\<close> constructor makes of it:
  \<^item> \<open>ISODate d\<close>: a calendar day in ISO form, \<open>d\<close> whole days after 1970-01-01
    (negative before it). Such a string parses as midnight UTC of that day.
  \<^item> \<open>Malformed\<close>: a string that does not parse (the \<^verbatim>\<open>Date\<close> is invalid, its
    time value is NaN).
  Strings in other formats that a host's parser may accept (with a time of day, say)
  are outside the documented format and outside this model.
\<close>

datatype dateStr = ISODate int | Malformed

datatype TaskStatus = Pending | InProgress | Completed | Blocked | Delayed

record task =
  id_task :: string
  name :: string
  startDate :: dateStr
  endDate :: dateStr
  duration :: int
  status :: TaskStatus
  assignee :: string
  progress :: int
  dependencies :: "string list"
  gmpCritical :: bool
  category :: string
  isNew :: "bool option"
  reason :: "string option"

record ProposedChange =
  taskId :: string
  taskName :: "string option"
  originalStartDate :: "dateStr option"
  originalEndDate :: "dateStr option"
  newStartDate :: dateStr
  newEndDate :: dateStr
  originalAssignee :: "string option"
  newAssignee :: "string option"
  change_reason :: string

text \<open>The only exception the modelled code can raise: \<^verbatim>\<open>toISOString\<close> on an invalid
  \<^verbatim>\<open>Date\<close> throws a RangeError.\<close>

datatype error = RangeError

section \<open>The JavaScript Date operations the code uses\<close>

definition msPerDay :: int where
  "msPerDay = 24 * 60 * 60 * 1000"

text \<open>A \<^verbatim>\<open>Date\<close> holds a time value of at most 8.64e15 ms in absolute value
  (100,000,000 days either side of the epoch); anything beyond is an invalid date.\<close>

definition maxTime :: int where
  "maxTime = 8640000000000000"

text \<open>\<^verbatim>\<open>new Date(s).getTime()\<close>; \<open>None\<close> stands for NaN. A day beyond the range of
  \<^verbatim>\<open>Date\<close> does not parse either. The numbers that \<open>cascadeSchedule\<close> computes are whole
  multiples of \<open>msPerDay\<close> below \<open>2^55\<close>, those of \<open>checkDependencies\<close> integers below
  \<open>2^53\<close>; JavaScript's numbers hold both exactly, so integer arithmetic is what the code
  computes.\<close>

definition getTime :: "dateStr \<Rightarrow> int option" where
  "getTime s =
     (case s of
        ISODate d \<Rightarrow> if \<bar>d * msPerDay\<bar> \<le> maxTime then Some (d * msPerDay) else None
      | Malformed \<Rightarrow> None)"

text \<open>\<^verbatim>\<open>new Date(ms).toISOString().split('T')[0]\<close> for a finite number \<open>ms\<close>:
  the UTC calendar day holding that instant, or a RangeError when \<open>ms\<close> is out of range.\<close>

definition toISODate :: "int \<Rightarrow> error + dateStr" where
  "toISODate ms =
     (if \<bar>ms\<bar> \<le> maxTime then Inr (ISODate (ms div msPerDay)) else Inl RangeError)"

section \<open>cascadeSchedule (src/App.tsx, lines 24-73)\<close>

text \<open>\<^verbatim>\<open>new Map(currentTasks.map(t => [t.id, t]))\<close>: entries are set in list order, so of
  several tasks with one id the last one is the one looked up.\<close>

definition taskMapOf :: "task list \<Rightarrow> (string \<rightharpoonup> task)" where
  "taskMapOf ts = fold (\<lambda>t m. m(id_task t \<mapsto> t)) ts Map.empty"

text \<open>The \<^verbatim>\<open>forEach\<close> over the dependency ids, starting from \<^verbatim>\<open>maxDependencyEnd = 0\<close>.
  An id that is not in the map is skipped; a dependency whose end date is NaN fails the
  comparison \<^verbatim>\<open>depEnd > maxDependencyEnd\<close> and is skipped as well.\<close>

definition forEachStep :: "(string \<rightharpoonup> task) \<Rightarrow> string \<Rightarrow> int \<Rightarrow> int" where
  "forEachStep taskMap depId m =
     (case taskMap depId of
        None \<Rightarrow> m
      | Some dep \<Rightarrow>
          (case getTime (endDate dep) of
             None \<Rightarrow> m
           | Some depEnd \<Rightarrow> if depEnd > m then depEnd else m))"

definition maxDependencyEnd :: "(string \<rightharpoonup> task) \<Rightarrow> string list \<Rightarrow> int" where
  "maxDependencyEnd taskMap deps = fold (forEachStep taskMap) deps 0"

text \<open>The body of the \<^verbatim>\<open>for\<close> loop for one task: \<open>Inr None\<close> when the slot is left as
  it is (\<^verbatim>\<open>continue\<close>, or a failed guard), \<open>Inr (Some t')\<close> when the slot is overwritten
  with the shifted copy \<open>t'\<close>, \<open>Inl RangeError\<close> when a \<^verbatim>\<open>toISOString\<close> throws.\<close>

definition shiftTask :: "(string \<rightharpoonup> task) \<Rightarrow> task \<Rightarrow> error + task option" where
  "shiftTask taskMap t =
     (if dependencies t = [] then Inr None
      else
        let m = maxDependencyEnd taskMap (dependencies t) in
        if m > 0 then
          let minStartMs = m + msPerDay in
          (case getTime (startDate t) of
             None \<Rightarrow> Inr None
           | Some currentStartMs \<Rightarrow>
               if currentStartMs < minStartMs then
                 let shift = minStartMs - currentStartMs in
                 (case toISODate minStartMs of
                    Inl e \<Rightarrow> Inl e
                  | Inr newStart \<Rightarrow>
                      (case getTime (endDate t) of
                         None \<Rightarrow> Inl RangeError
                       | Some endMs \<Rightarrow>
                           (case toISODate (endMs + shift) of
                              Inl e \<Rightarrow> Inl e
                            | Inr newEnd \<Rightarrow>
                                Inr (Some (t\<lparr>startDate := newStart, endDate := newEnd\<rparr>)))))
               else Inr None)
        else Inr None)"

text \<open>The \<^verbatim>\<open>for\<close> loop of one pass. \<open>taskMap\<close> was built before the loop and holds the
  task objects of that moment; a shifted task is a new object stored in the array slot, so
  the map keeps answering with the dates from the start of the pass.\<close>

function forLoop ::
  "(string \<rightharpoonup> task) \<Rightarrow> nat \<Rightarrow> task list \<Rightarrow> bool \<Rightarrow> error + task list \<times> bool" where
  "forLoop taskMap i currentTasks hasChanged =
     (if i < length currentTasks then
        (case shiftTask taskMap (currentTasks ! i) of
           Inl e \<Rightarrow> Inl e
         | Inr None \<Rightarrow> forLoop taskMap (i + 1) currentTasks hasChanged
         | Inr (Some t') \<Rightarrow> forLoop taskMap (i + 1) (currentTasks[i := t']) True)
      else Inr (currentTasks, hasChanged))"
  by pat_completeness auto
termination
  by (relation "measure (\<lambda>(taskMap, i, currentTasks, hasChanged). length currentTasks - i)") auto

text \<open>The \<^verbatim>\<open>while (hasChanged && iterations < 50)\<close> loop. It returns the three loop
  variables as they stand when the loop is left.\<close>

function whileLoop :: "task list \<Rightarrow> bool \<Rightarrow> nat \<Rightarrow> error + task list \<times> bool \<times> nat" where
  "whileLoop currentTasks hasChanged iterations =
     (if hasChanged \<and> iterations < 50 then
        (case forLoop (taskMapOf currentTasks) 0 currentTasks False of
           Inl e \<Rightarrow> Inl e
         | Inr (currentTasks', hasChanged') \<Rightarrow>
             whileLoop currentTasks' hasChanged' (iterations + 1))
      else Inr (currentTasks, hasChanged, iterations))"
  by pat_completeness auto
termination
  by (relation "measure (\<lambda>(currentTasks, hasChanged, iterations). 50 - iterations)") auto

definition cascadeSchedule :: "task list \<Rightarrow> error + task list" where
  "cascadeSchedule tasks =
     (case whileLoop (map (\<lambda>t. t) tasks) True 0 of
        Inl e \<Rightarrow> Inl e
      | Inr (currentTasks, hasChanged, iterations) \<Rightarrow> Inr currentTasks)"

section \<open>cascadeSchedule with the task objects and arrays in an explicit store\<close>

text \<open>
  The definitions above treat tasks as values. To speak about what \<open>cascadeSchedule\<close>
  does to the caller's data, the same code is modelled once more over a store of
  JavaScript objects: \<open>objects\<close> holds the task objects and \<open>arrays\<close> the arrays of task
  references; a reference is an index into the one or the other. The code creates objects
  (\<^verbatim>\<open>{...t}\<close>, \<^verbatim>\<open>{...task, startDate: ..., endDate: ...}\<close>) and one array
  (\<^verbatim>\<open>tasks.map\<close>), and it writes to array slots (\<^verbatim>\<open>currentTasks[i] = ...\<close>); it never
  assigns to a property of a task object. The \<^verbatim>\<open>dependencies\<close> array of a task is shared
  between a task and its copies and never written, so it stays a value inside the task.
\<close>

record store =
  objects :: "task list"
  arrays :: "nat list list"

text \<open>An object literal: a new object, at the next free reference.\<close>

definition newObject :: "task \<Rightarrow> store \<Rightarrow> nat \<times> store" where
  "newObject t st = (length (objects st), st\<lparr>objects := objects st @ [t]\<rparr>)"

definition newArray :: "nat list \<Rightarrow> store \<Rightarrow> nat \<times> store" where
  "newArray refs st = (length (arrays st), st\<lparr>arrays := arrays st @ [refs]\<rparr>)"

text \<open>\<^verbatim>\<open>a[i] = r\<close>: the array \<open>a\<close> is updated in place.\<close>

definition setElement :: "nat \<Rightarrow> nat \<Rightarrow> nat \<Rightarrow> store \<Rightarrow> store" where
  "setElement a i r st = st\<lparr>arrays := (arrays st)[a := (arrays st ! a)[i := r]]\<rparr>"

text \<open>The callback \<^verbatim>\<open>t => ({...t})\<close> of \<^verbatim>\<open>tasks.map\<close>, applied to each element in turn.\<close>

fun copyEach :: "nat list \<Rightarrow> store \<Rightarrow> nat list \<times> store" where
  "copyEach [] st = ([], st)"
| "copyEach (r # rs) st =
     (case newObject (objects st ! r) st of
        (r', st1) \<Rightarrow> (case copyEach rs st1 of (rs', st2) \<Rightarrow> (r' # rs', st2)))"

text \<open>The \<^verbatim>\<open>Map\<close> from ids to task objects (references), and what a lookup followed by a
  property read sees in the store of that moment.\<close>

definition refMapOf :: "store \<Rightarrow> nat list \<Rightarrow> (string \<rightharpoonup> nat)" where
  "refMapOf st refs = fold (\<lambda>r m. m(id_task (objects st ! r) \<mapsto> r)) refs Map.empty"

definition derefMap :: "store \<Rightarrow> (string \<rightharpoonup> nat) \<Rightarrow> (string \<rightharpoonup> task)" where
  "derefMap st refMap depId = map_option (\<lambda>r. objects st ! r) (refMap depId)"

function forLoopS ::
  "(string \<rightharpoonup> nat) \<Rightarrow> nat \<Rightarrow> nat \<Rightarrow> store \<Rightarrow> bool \<Rightarrow> error + store \<times> bool" where
  "forLoopS taskMap currentTasks i st hasChanged =
     (if i < length (arrays st ! currentTasks) then
        (case shiftTask (derefMap st taskMap) (objects st ! (arrays st ! currentTasks ! i)) of
           Inl e \<Rightarrow> Inl e
         | Inr None \<Rightarrow> forLoopS taskMap currentTasks (i + 1) st hasChanged
         | Inr (Some t') \<Rightarrow>
             (case newObject t' st of
                (r, st1) \<Rightarrow> forLoopS taskMap currentTasks (i + 1) (setElement currentTasks i r st1) True))
      else Inr (st, hasChanged))"
  by pat_completeness auto
termination
proof (relation "measure (\<lambda>(taskMap, currentTasks, i, st, hasChanged).
                  length (arrays st ! currentTasks) - i)", goal_cases)
  case 1
  show ?case by simp
next
  case 2
  then show ?case by simp
next
  case (3 taskMap currentTasks i st b t' res r st1)
  then show ?case
    by (cases "currentTasks < length (arrays st)")
       (auto simp: newObject_def setElement_def list_update_beyond)
qed

function whileLoopS :: "nat \<Rightarrow> store \<Rightarrow> bool \<Rightarrow> nat \<Rightarrow> error + store \<times> bool \<times> nat" where
  "whileLoopS currentTasks st hasChanged iterations =
     (if hasChanged \<and> iterations < 50 then
        (case forLoopS (refMapOf st (arrays st ! currentTasks)) currentTasks 0 st False of
           Inl e \<Rightarrow> Inl e
         | Inr (st', hasChanged') \<Rightarrow> whileLoopS currentTasks st' hasChanged' (iterations + 1))
      else Inr (st, hasChanged, iterations))"
  by pat_completeness auto
termination
  by (relation "measure (\<lambda>(currentTasks, st, hasChanged, iterations). 50 - iterations)") auto

definition cascadeScheduleS :: "nat \<Rightarrow> store \<Rightarrow> error + nat \<times> store" where
  "cascadeScheduleS tasks st =
     (case copyEach (arrays st ! tasks) st of
        (refs, st1) \<Rightarrow>
          (case newArray refs st1 of
             (currentTasks, st2) \<Rightarrow>
               (case whileLoopS currentTasks st2 True 0 of
                  Inl e \<Rightarrow> Inl e
                | Inr (st', hasChanged, iterations) \<Rightarrow> Inr (currentTasks, st'))))"

section \<open>checkDependencies (src/App.tsx, lines 480-501)\<close>

text \<open>\<^verbatim>\<open>suggested.setDate(suggested.getDate() + 1)\<close> works in the host's local time, while
  the date strings are parsed and printed in UTC. The host's time zone is an input of the
  function: \<open>tza t True\<close> is the offset of local time from UTC (in ms) at the UTC time value
  \<open>t\<close>, and \<open>tza t False\<close> the offset for the local time value \<open>t\<close> (ECMAScript's
  \<^verbatim>\<open>LocalTZA(t, isUTC)\<close>).\<close>

type_synonym localTZA = "int \<Rightarrow> bool \<Rightarrow> int"

definition LocalTime :: "localTZA \<Rightarrow> int \<Rightarrow> int" where
  "LocalTime tza t = t + tza t True"

definition UTC :: "localTZA \<Rightarrow> int \<Rightarrow> int" where
  "UTC tza t = t - tza t False"

text \<open>\<^verbatim>\<open>TimeClip\<close>: \<open>None\<close> stands for NaN.\<close>

definition TimeClip :: "int \<Rightarrow> int option" where
  "TimeClip t = (if \<bar>t\<bar> \<le> maxTime then Some t else None)"

text \<open>\<^verbatim>\<open>d.setDate(d.getDate() + 1)\<close> on a valid time value \<open>t\<close>: the local time is taken,
  its day of the month is raised by one with the time within the day kept (which adds
  24 hours to the local time value), and the result is read back as UTC.\<close>

definition setDateNextDay :: "localTZA \<Rightarrow> int \<Rightarrow> int option" where
  "setDateNextDay tza t =
     (let local = LocalTime tza t;
          newDate = local + msPerDay
      in TimeClip (UTC tza newDate))"

record conflictResult =
  dependency :: task
  suggestedDate :: dateStr

text \<open>The \<^verbatim>\<open>for (const depId of updatedTask.dependencies)\<close> loop. The comparison
  \<^verbatim>\<open>currentStart <= depEnd\<close> of two \<^verbatim>\<open>Date\<close>s compares their time values and is
  false when either is NaN.\<close>

fun checkLoop :: "localTZA \<Rightarrow> task \<Rightarrow> task list \<Rightarrow> string list \<Rightarrow> error + conflictResult option" where
  "checkLoop tza updatedTask allTasks [] = Inr None"
| "checkLoop tza updatedTask allTasks (depId # rest) =
     (case find (\<lambda>t. id_task t = depId) allTasks of
        None \<Rightarrow> checkLoop tza updatedTask allTasks rest
      | Some depTask \<Rightarrow>
          (case getTime (endDate depTask) of
             None \<Rightarrow> checkLoop tza updatedTask allTasks rest
           | Some depEnd \<Rightarrow>
               (case getTime (startDate updatedTask) of
                  None \<Rightarrow> checkLoop tza updatedTask allTasks rest
                | Some currentStart \<Rightarrow>
                    if currentStart \<le> depEnd then
                      (case setDateNextDay tza depEnd of
                         None \<Rightarrow> Inl RangeError
                       | Some suggested \<Rightarrow>
                           Inr (Some \<lparr>dependency = depTask,
                                      suggestedDate = ISODate (suggested div msPerDay)\<rparr>))
                    else checkLoop tza updatedTask allTasks rest)))"

definition checkDependencies :: "localTZA \<Rightarrow> task \<Rightarrow> task list \<Rightarrow> error + conflictResult option" where
  "checkDependencies tza updatedTask allTasks =
     (if length (dependencies updatedTask) > 0
      then checkLoop tza updatedTask allTasks (dependencies updatedTask)
      else Inr None)"

section \<open>handleConfirmChanges (src/App.tsx, lines 418-465)\<close>

datatype UserRole = Admin | ProjectManager | Observer

definition currentUserRole :: UserRole where
  "currentUserRole = Admin"

definition canEditTasks :: bool where
  "canEditTasks \<longleftrightarrow> currentUserRole = Admin"

text \<open>The callback of \<^verbatim>\<open>prev.tasks.map\<close>. \<^verbatim>\<open>changes.find\<close> takes the first change for
  the task's id; \<^verbatim>\<open>change.newAssignee || task.assignee\<close> keeps the old assignee when the
  new one is absent or the empty string.\<close>

definition applyChange :: "ProposedChange list \<Rightarrow> task \<Rightarrow> task" where
  "applyChange changes t =
     (case find (\<lambda>c. taskId c = id_task t) changes of
        Some change \<Rightarrow>
          t\<lparr>startDate := newStartDate change,
            endDate := newEndDate change,
            assignee := (case newAssignee change of
                           Some a \<Rightarrow> if a \<noteq> [] then a else assignee t
                         | None \<Rightarrow> assignee t),
            status := status t\<rparr>
      | None \<Rightarrow> t)"

text \<open>\<^verbatim>\<open>const { isNew, reason, ...rest } = t; return rest;\<close>\<close>

definition finalizeNewTask :: "task \<Rightarrow> task" where
  "finalizeNewTask t = t\<lparr>isNew := None, reason := None\<rparr>"

definition mergedTasks :: "task list \<Rightarrow> ProposedChange list \<Rightarrow> task list \<Rightarrow> task list" where
  "mergedTasks prevTasks changes newTasks =
     map (applyChange changes) prevTasks @ map finalizeNewTask newTasks"

text \<open>The new value of \<^verbatim>\<open>project.tasks\<close> that the state updater computes from
  \<^verbatim>\<open>prev.tasks\<close>; the other fields of the project are copied.\<close>

definition handleConfirmChanges ::
  "task list \<Rightarrow> ProposedChange list \<Rightarrow> task list \<Rightarrow> error + task list" where
  "handleConfirmChanges prevTasks changes newTasks =
     (if \<not> canEditTasks then Inr prevTasks
      else cascadeSchedule (mergedTasks prevTasks changes newTasks))"

section \<open>Notions used to state the properties\<close>

text \<open>A date string moved by \<open>k\<close> whole days; a malformed one stays as it is.\<close>

definition plusDays :: "int \<Rightarrow> dateStr \<Rightarrow> dateStr" where
  "plusDays k s = (case s of ISODate d \<Rightarrow> ISODate (d + k) | Malformed \<Rightarrow> Malformed)"

definition shiftedCopy :: "int \<Rightarrow> task \<Rightarrow> task" where
  "shiftedCopy k t = t\<lparr>startDate := plusDays k (startDate t), endDate := plusDays k (endDate t)\<rparr>"

text \<open>\<open>t'\<close> is \<open>t\<close> with both dates moved later by the same number of days, and nothing
  else changed; a task that really moves has two well-formed dates.\<close>

definition movedLater :: "task \<Rightarrow> task \<Rightarrow> bool" where
  "movedLater t t' \<longleftrightarrow>
     (\<exists>k. 0 \<le> k \<and> t' = shiftedCopy k t \<and>
          (k = 0 \<or> (\<exists>s e. startDate t = ISODate s \<and> endDate t = ISODate e)))"

text \<open>\<^verbatim>\<open>endDate - startDate\<close> in days; \<open>None\<close> when either date is malformed.\<close>

definition durationDays :: "task \<Rightarrow> int option" where
  "durationDays t =
     (case (startDate t, endDate t) of
        (ISODate s, ISODate e) \<Rightarrow> Some (e - s)
      | _ \<Rightarrow> None)"

text \<open>\<open>startDate <= endDate\<close> as calendar days; false when either date is malformed.\<close>

definition datesOrdered :: "task \<Rightarrow> bool" where
  "datesOrdered t =
     (case (startDate t, endDate t) of
        (ISODate s, ISODate e) \<Rightarrow> s \<le> e
      | _ \<Rightarrow> False)"

text \<open>The end times (ms) of the dependencies of a task that resolve in the map and whose end
  date parses, in the order of the dependency ids.\<close>

definition resolvedEnds :: "(string \<rightharpoonup> task) \<Rightarrow> string list \<Rightarrow> int list" where
  "resolvedEnds taskMap deps =
     List.map_filter
       (\<lambda>depId. case taskMap depId of None \<Rightarrow> None | Some dep \<Rightarrow> getTime (endDate dep))
       deps"

text \<open>The finish-to-start invariant for one task: its start date parses and lies strictly
  after the end of every resolved dependency.\<close>

definition startsAfterDependencies :: "(string \<rightharpoonup> task) \<Rightarrow> task \<Rightarrow> bool" where
  "startsAfterDependencies taskMap t =
     (case getTime (startDate t) of
        None \<Rightarrow> False
      | Some s \<Rightarrow> list_all (\<lambda>e. e < s) (resolvedEnds taskMap (dependencies t)))"

text \<open>The invariant for a task list: it holds for every task with a resolved dependency.\<close>

definition finishToStart :: "task list \<Rightarrow> bool" where
  "finishToStart ts =
     list_all (\<lambda>t. resolvedEnds (taskMapOf ts) (dependencies t) = [] \<or>
                    startsAfterDependencies (taskMapOf ts) t) ts"

text \<open>A date string that is a calendar day on or before 1970-01-01.\<close>

definition onOrBeforeEpoch :: "dateStr \<Rightarrow> bool" where
  "onOrBeforeEpoch s = (case s of ISODate d \<Rightarrow> d \<le> 0 | Malformed \<Rightarrow> False)"

text \<open>The task map with every task that ends on or before 1970-01-01 taken out, as
  if its id were unknown.\<close>

definition unresolveEpochEnds :: "(string \<rightharpoonup> task) \<Rightarrow> (string \<rightharpoonup> task)" where
  "unresolveEpochEnds taskMap depId =
     (case taskMap depId of
        None \<Rightarrow> None
      | Some dep \<Rightarrow> if onOrBeforeEpoch (endDate dep) then None else Some dep)"

text \<open>\<open>t'\<close> agrees with \<open>t\<close> on every field other than \<open>startDate\<close> and \<open>endDate\<close>.\<close>

definition sameButDates :: "task \<Rightarrow> task \<Rightarrow> bool" where
  "sameButDates t t' \<longleftrightarrow> t' = t\<lparr>startDate := startDate t', endDate := endDate t'\<rparr>"

text \<open>A host time zone with a constant offset from UTC (no daylight saving time).\<close>

definition fixedOffset :: "int \<Rightarrow> localTZA" where
  "fixedOffset off = (\<lambda>t isUTC. off)"

text \<open>Central European time around the start of daylight saving time in 2023: UTC+1 until
  2023-03-26 01:00 UTC (day 19442), UTC+2 from then on. Local times of the skipped hour
  (02:00 to 03:00) are read with the offset before the change.\<close>

definition europeBerlinSpring2023 :: localTZA where
  "europeBerlinSpring2023 =
     (\<lambda>t isUTC.
        if isUTC then (if t < 19442 * msPerDay + 3600000 then 3600000 else 7200000)
        else (if t < 19442 * msPerDay + 3 * 3600000 then 3600000 else 7200000))"

text \<open>The dependency id resolves in \<open>allTasks\<close> (to the first task with that id) and that
  task ends on or after the start of \<open>updatedTask\<close>.\<close>

definition violatedBy :: "task \<Rightarrow> task list \<Rightarrow> string \<Rightarrow> bool" where
  "violatedBy updatedTask allTasks depId =
     (case find (\<lambda>t. id_task t = depId) allTasks of
        None \<Rightarrow> False
      | Some depTask \<Rightarrow>
          (case (getTime (startDate updatedTask), getTime (endDate depTask)) of
             (Some s, Some e) \<Rightarrow> s \<le> e
           | _ \<Rightarrow> False))"

text \<open>The offset of local time from UTC does not grow between the instant \<open>t\<close> and the
  same local time of day on the next local day: no clocks go forward in between.\<close>

definition steadyOffset :: "localTZA \<Rightarrow> int \<Rightarrow> bool" where
  "steadyOffset tza t =
     (let d = tza t True - tza (LocalTime tza t + msPerDay) False
      in 0 \<le> d \<and> d < msPerDay)"

text \<open>The task values that the array \<open>a\<close> of the store holds.\<close>

definition absTasks :: "store \<Rightarrow> nat \<Rightarrow> task list" where
  "absTasks st a = map (nth (objects st)) (arrays st ! a)"

text \<open>What one run of the loops may do to a store, \<open>c\<close> being the array of the current
  tasks: objects are only added, no array other than \<open>c\<close> changes, and a slot of \<open>c\<close> either
  keeps its reference or refers to an object added since.\<close>

definition passExt :: "store \<Rightarrow> store \<Rightarrow> nat \<Rightarrow> bool" where
  "passExt st st' c \<longleftrightarrow>
     (\<exists>os. objects st' = objects st @ os) \<and>
     length (arrays st') = length (arrays st) \<and>
     (\<forall>a. a \<noteq> c \<longrightarrow> arrays st' ! a = arrays st ! a) \<and>
     length (arrays st' ! c) = length (arrays st ! c) \<and>
     (\<forall>j<length (arrays st ! c).
        arrays st' ! c ! j = arrays st ! c ! j \<or> length (objects st) \<le> arrays st' ! c ! j) \<and>
     (\<forall>r \<in> set (arrays st' ! c). r < length (objects st'))"

text \<open>Nothing that was in the store \<open>st\<close> has changed in \<open>st'\<close>, and the array \<open>result\<close> and
  the objects it refers to have been created since.\<close>

definition freshResult :: "store \<Rightarrow> store \<Rightarrow> nat \<Rightarrow> bool" where
  "freshResult st st' result \<longleftrightarrow>
     take (length (objects st)) (objects st') = objects st \<and>
     take (length (arrays st)) (arrays st') = arrays st \<and>
     length (arrays st) \<le> result \<and> result < length (arrays st') \<and>
     (\<forall>r \<in> set (arrays st' ! result). length (objects st) \<le> r \<and> r < length (objects st'))"




text \<open>A task for the examples: id (also its name), start day, end day, dependencies.\<close>

definition mkTask :: "string \<Rightarrow> int \<Rightarrow> int \<Rightarrow> string list \<Rightarrow> task" where
  "mkTask i s e deps =
     \<lparr>id_task = i, name = i, startDate = ISODate s, endDate = ISODate e, duration = e - s + 1,
      status = Pending, assignee = ''QA'', progress = 0, dependencies = deps,
      gmpCritical = False, category = ''General'', isNew = None, reason = None\<rparr>"

text \<open>A proposed change for the examples: task id, new start day, new end day, new
  assignee.\<close>

definition mkChange :: "string \<Rightarrow> int \<Rightarrow> int \<Rightarrow> string option \<Rightarrow> ProposedChange" where
  "mkChange i s e a =
     \<lparr>taskId = i, taskName = None, originalStartDate = None, originalEndDate = None,
      newStartDate = ISODate s, newEndDate = ISODate e, originalAssignee = None,
      newAssignee = a, change_reason = ''supplier delay''\<rparr>"

text \<open>A store for the examples: two task objects and the caller's array of them; and the
  store after \<open>cascadeSchedule\<close> has run on that array.\<close>

definition exStore :: store where
  "exStore = \<lparr>objects = [mkTask ''A'' 19631 19635 [], mkTask ''B'' 19633 19640 [''A'']],
              arrays = [[0, 1]]\<rparr>"

definition exStore' :: store where
  "exStore' = \<lparr>objects = [mkTask ''A'' 19631 19635 [], mkTask ''B'' 19633 19640 [''A''],
                          mkTask ''A'' 19631 19635 [], mkTask ''B'' 19633 19640 [''A''],
                          mkTask ''B'' 19636 19643 [''A'']],
               arrays = [[0, 1], [2, 4]]\<rparr>"

section \<open>Auxiliary lemmas\<close>

declare forLoop.simps [simp del] whileLoop.simps [simp del]

lemma getTime_Some_iff:
  "getTime s = Some ms \<longleftrightarrow> (\<exists>d. s = ISODate d \<and> ms = d * msPerDay \<and> \<bar>d * msPerDay\<bar> \<le> maxTime)"
  by (cases s) (auto simp: getTime_def)

lemma fold_forEachStep_ge: "m \<le> fold (forEachStep tm) deps m"
proof (induction deps arbitrary: m)
  case Nil
  show ?case by simp
next
  case (Cons d deps)
  have "m \<le> forEachStep tm d m"
    by (simp add: forEachStep_def split: option.splits)
  also have "\<dots> \<le> fold (forEachStep tm) deps (forEachStep tm d m)"
    by (rule Cons.IH)
  finally show ?case by simp
qed

lemma fold_forEachStep_upper:
  assumes "depId \<in> set deps" "tm depId = Some dep" "getTime (endDate dep) = Some e"
  shows "e \<le> fold (forEachStep tm) deps m"
  using assms(1)
proof (induction deps arbitrary: m)
  case Nil
  then show ?case by simp
next
  case (Cons d deps)
  show ?case
  proof (cases "depId = d")
    case True
    have "e \<le> forEachStep tm d m"
      using assms(2,3) True by (simp add: forEachStep_def)
    also have "\<dots> \<le> fold (forEachStep tm) deps (forEachStep tm d m)"
      by (rule fold_forEachStep_ge)
    finally show ?thesis by simp
  next
    case False
    with Cons.prems have "depId \<in> set deps" by simp
    from Cons.IH [OF this] show ?thesis by simp
  qed
qed

lemma fold_forEachStep_cases:
  "fold (forEachStep tm) deps m = m \<or>
   (\<exists>depId \<in> set deps. \<exists>dep. tm depId = Some dep \<and>
       getTime (endDate dep) = Some (fold (forEachStep tm) deps m))"
proof (induction deps arbitrary: m)
  case Nil
  show ?case by simp
next
  case (Cons d deps)
  from Cons.IH [of "forEachStep tm d m"] show ?case
  proof
    assume eq: "fold (forEachStep tm) deps (forEachStep tm d m) = forEachStep tm d m"
    show ?thesis
    proof (cases "forEachStep tm d m = m")
      case True
      with eq show ?thesis by simp
    next
      case False
      then obtain dep where "tm d = Some dep" "getTime (endDate dep) = Some (forEachStep tm d m)"
        by (auto simp: forEachStep_def split: option.splits if_splits)
      with eq show ?thesis by auto
    qed
  next
    assume "\<exists>depId\<in>set deps. \<exists>dep. tm depId = Some dep \<and>
       getTime (endDate dep) = Some (fold (forEachStep tm) deps (forEachStep tm d m))"
    then show ?thesis by auto
  qed
qed

lemma maxDependencyEnd_upper:
  "depId \<in> set deps \<Longrightarrow> tm depId = Some dep \<Longrightarrow> getTime (endDate dep) = Some e \<Longrightarrow>
   e \<le> maxDependencyEnd tm deps"
  unfolding maxDependencyEnd_def by (rule fold_forEachStep_upper)

lemma maxDependencyEnd_nonneg: "0 \<le> maxDependencyEnd tm deps"
  unfolding maxDependencyEnd_def by (rule fold_forEachStep_ge)

lemma maxDependencyEnd_cases:
  "maxDependencyEnd tm deps = 0 \<or>
   (\<exists>depId \<in> set deps. \<exists>dep. tm depId = Some dep \<and>
       getTime (endDate dep) = Some (maxDependencyEnd tm deps))"
  unfolding maxDependencyEnd_def by (rule fold_forEachStep_cases)

lemma maxDependencyEnd_day:
  "\<exists>D. maxDependencyEnd tm deps = D * msPerDay \<and> \<bar>D * msPerDay\<bar> \<le> maxTime"
  using maxDependencyEnd_cases [of tm deps]
proof
  assume "maxDependencyEnd tm deps = 0"
  then have "maxDependencyEnd tm deps = 0 * msPerDay \<and> \<bar>0 * msPerDay\<bar> \<le> maxTime"
    by (simp add: maxTime_def)
  then show ?thesis by blast
next
  assume "\<exists>depId\<in>set deps. \<exists>dep. tm depId = Some dep \<and>
       getTime (endDate dep) = Some (maxDependencyEnd tm deps)"
  then show ?thesis by (auto simp: getTime_Some_iff)
qed

lemma shiftTask_Some:
  assumes "shiftTask tm t = Inr (Some t')"
  shows "\<exists>s e k. 0 < k \<and> startDate t = ISODate s \<and> endDate t = ISODate e \<and>
           t' = t\<lparr>startDate := ISODate (s + k), endDate := ISODate (e + k)\<rparr> \<and>
           (s + k) * msPerDay = maxDependencyEnd tm (dependencies t) + msPerDay \<and>
           0 < maxDependencyEnd tm (dependencies t) \<and> dependencies t \<noteq> []"
proof -
  obtain D where D: "maxDependencyEnd tm (dependencies t) = D * msPerDay"
    using maxDependencyEnd_day by blast
  from assms obtain c endMs where
    deps: "dependencies t \<noteq> []" and pos: "0 < D * msPerDay" and
    c: "getTime (startDate t) = Some c" and lt: "c < D * msPerDay + msPerDay" and
    e: "getTime (endDate t) = Some endMs" and
    t': "t' = t\<lparr>startDate := ISODate ((D * msPerDay + msPerDay) div msPerDay),
                 endDate := ISODate ((endMs + (D * msPerDay + msPerDay - c)) div msPerDay)\<rparr>"
    by (auto simp: shiftTask_def D Let_def toISODate_def
             split: if_splits option.splits sum.splits)
  from c obtain s where s: "startDate t = ISODate s" "c = s * msPerDay"
    by (auto simp: getTime_Some_iff)
  from e obtain e' where e': "endDate t = ISODate e'" "endMs = e' * msPerDay"
    by (auto simp: getTime_Some_iff)
  have ms: "0 < msPerDay" by (simp add: msPerDay_def)
  have 1: "(D * msPerDay + msPerDay) div msPerDay = D + 1"
    using ms by simp
  have "endMs + (D * msPerDay + msPerDay - c) = (e' + (D + 1 - s)) * msPerDay"
    by (simp add: s e' algebra_simps)
  then have 2: "(endMs + (D * msPerDay + msPerDay - c)) div msPerDay = e' + (D + 1 - s)"
    using ms by simp
  have "s * msPerDay < (D + 1) * msPerDay"
    using lt s by (simp add: algebra_simps)
  then have k: "0 < D + 1 - s" using ms by simp
  have 3: "(s + (D + 1 - s)) * msPerDay = maxDependencyEnd tm (dependencies t) + msPerDay"
    by (simp add: D algebra_simps)
  show ?thesis
    using k s(1) e'(1) t' 1 2 3 pos deps D
    by (intro exI [of _ s] exI [of _ e'] exI [of _ "D + 1 - s"]) simp
qed

lemma shiftTask_None_iff:
  "shiftTask tm t = Inr None \<longleftrightarrow>
     dependencies t = [] \<or> maxDependencyEnd tm (dependencies t) \<le> 0 \<or>
     (case getTime (startDate t) of None \<Rightarrow> True
      | Some c \<Rightarrow> maxDependencyEnd tm (dependencies t) + msPerDay \<le> c)"
  by (auto simp: shiftTask_def Let_def split: option.splits sum.splits)

lemma forLoop_Inr:
  assumes "forLoop tm i cur ch = Inr (out, ch')"
  shows "length out = length cur \<and>
         (\<forall>j<length cur. out ! j =
            (if j < i then cur ! j
             else case shiftTask tm (cur ! j) of Inr (Some t') \<Rightarrow> t' | _ \<Rightarrow> cur ! j)) \<and>
         (\<forall>j<length cur. i \<le> j \<longrightarrow> shiftTask tm (cur ! j) \<noteq> Inl RangeError) \<and>
         (ch' \<longleftrightarrow> ch \<or> (\<exists>j<length cur. i \<le> j \<and> shiftTask tm (cur ! j) \<noteq> Inr None))"
  using assms
proof (induction tm i cur ch rule: forLoop.induct)
  case (1 tm i cur ch)
  show ?case
  proof (cases "i < length cur")
    case False
    with "1.prems" show ?thesis by (auto simp: forLoop.simps)
  next
    case True
    note i = this
    show ?thesis
    proof (cases "shiftTask tm (cur ! i)")
      case (Inl e)
      with "1.prems" i show ?thesis by (simp add: forLoop.simps)
    next
      case (Inr r)
      show ?thesis
      proof (cases r)
        case None
        with Inr "1.prems" i have run: "forLoop tm (i + 1) cur ch = Inr (out, ch')"
          by (simp add: forLoop.simps)
        from "1.IH"(1) [OF i Inr None run]
        have len: "length out = length cur"
          and el: "\<And>j. j < length cur \<Longrightarrow> out ! j =
            (if j < i + 1 then cur ! j
             else case shiftTask tm (cur ! j) of Inr (Some t') \<Rightarrow> t' | _ \<Rightarrow> cur ! j)"
          and ne: "\<And>j. j < length cur \<Longrightarrow> i + 1 \<le> j \<Longrightarrow> shiftTask tm (cur ! j) \<noteq> Inl RangeError"
          and c: "ch' \<longleftrightarrow> ch \<or> (\<exists>j<length cur. i + 1 \<le> j \<and> shiftTask tm (cur ! j) \<noteq> Inr None)"
          by auto
        have el': "out ! j = (if j < i then cur ! j
             else case shiftTask tm (cur ! j) of Inr (Some t') \<Rightarrow> t' | _ \<Rightarrow> cur ! j)"
          if "j < length cur" for j
        proof (cases "j = i")
          case True
          with el [OF that] Inr None show ?thesis by simp
        next
          case False
          with el [OF that] show ?thesis by auto
        qed
        have ne': "shiftTask tm (cur ! j) \<noteq> Inl RangeError" if "j < length cur" "i \<le> j" for j
        proof (cases "j = i")
          case True
          with Inr show ?thesis by simp
        next
          case False
          with that ne [of j] show ?thesis by simp
        qed
        have c': "ch' \<longleftrightarrow> ch \<or> (\<exists>j<length cur. i \<le> j \<and> shiftTask tm (cur ! j) \<noteq> Inr None)"
        proof -
          have "(\<exists>j<length cur. i \<le> j \<and> shiftTask tm (cur ! j) \<noteq> Inr None) \<longleftrightarrow>
                (\<exists>j<length cur. i + 1 \<le> j \<and> shiftTask tm (cur ! j) \<noteq> Inr None)"
          proof
            assume "\<exists>j<length cur. i \<le> j \<and> shiftTask tm (cur ! j) \<noteq> Inr None"
            then obtain j where j: "j < length cur" "i \<le> j" "shiftTask tm (cur ! j) \<noteq> Inr None"
              by blast
            with Inr None have "j \<noteq> i" by auto
            with j show "\<exists>j<length cur. i + 1 \<le> j \<and> shiftTask tm (cur ! j) \<noteq> Inr None"
              by (intro exI [of _ j]) simp
          next
            assume "\<exists>j<length cur. i + 1 \<le> j \<and> shiftTask tm (cur ! j) \<noteq> Inr None"
            then show "\<exists>j<length cur. i \<le> j \<and> shiftTask tm (cur ! j) \<noteq> Inr None"
              by auto
          qed
          with c show ?thesis by simp
        qed
        from len el' ne' c' show ?thesis by blast
      next
        case (Some t')
        with Inr "1.prems" i have run: "forLoop tm (i + 1) (cur[i := t']) True = Inr (out, ch')"
          by (simp add: forLoop.simps)
        from "1.IH"(2) [OF i Inr Some run]
        have len: "length out = length cur"
          and el: "\<And>j. j < length cur \<Longrightarrow> out ! j =
            (if j < i + 1 then cur[i := t'] ! j
             else case shiftTask tm (cur[i := t'] ! j) of Inr (Some t') \<Rightarrow> t' | _ \<Rightarrow> cur[i := t'] ! j)"
          and ne: "\<And>j. j < length cur \<Longrightarrow> i + 1 \<le> j \<Longrightarrow> shiftTask tm (cur[i := t'] ! j) \<noteq> Inl RangeError"
          and c: "ch'"
          by auto
        have el': "out ! j = (if j < i then cur ! j
             else case shiftTask tm (cur ! j) of Inr (Some t') \<Rightarrow> t' | _ \<Rightarrow> cur ! j)"
          if "j < length cur" for j
        proof (cases "j = i")
          case True
          with el [OF that] Inr Some i show ?thesis by simp
        next
          case False
          then have "cur[i := t'] ! j = cur ! j" by simp
          with el [OF that] False show ?thesis by (auto split: sum.splits option.splits)
        qed
        have ne': "shiftTask tm (cur ! j) \<noteq> Inl RangeError" if "j < length cur" "i \<le> j" for j
        proof (cases "j = i")
          case True
          with Inr show ?thesis by simp
        next
          case False
          then have "cur[i := t'] ! j = cur ! j" by simp
          with False that ne [of j] show ?thesis by simp
        qed
        have "\<exists>j<length cur. i \<le> j \<and> shiftTask tm (cur ! j) \<noteq> Inr None"
          using i Inr Some by (intro exI [of _ i]) simp
        with c have c': "ch' \<longleftrightarrow> ch \<or> (\<exists>j<length cur. i \<le> j \<and> shiftTask tm (cur ! j) \<noteq> Inr None)"
          by simp
        from len el' ne' c' show ?thesis by blast
      qed
    qed
  qed
qed


lemma plusDays_0 [simp]: "plusDays 0 s = s"
  by (cases s) (simp_all add: plusDays_def)

lemma plusDays_plusDays [simp]: "plusDays k (plusDays j s) = plusDays (j + k) s"
  by (cases s) (simp_all add: plusDays_def)

lemma shiftedCopy_0 [simp]: "shiftedCopy 0 t = t"
  by (simp add: shiftedCopy_def)

lemma shiftedCopy_shiftedCopy: "shiftedCopy k (shiftedCopy j t) = shiftedCopy (j + k) t"
  by (simp add: shiftedCopy_def)

lemma movedLater_refl: "movedLater t t"
  unfolding movedLater_def by (intro exI [of _ 0]) simp

lemma movedLater_trans:
  assumes "movedLater a b" "movedLater b c"
  shows "movedLater a c"
proof -
  from assms(1) obtain j where j: "0 \<le> j" "b = shiftedCopy j a"
    "j = 0 \<or> (\<exists>s e. startDate a = ISODate s \<and> endDate a = ISODate e)"
    unfolding movedLater_def by blast
  from assms(2) obtain k where k: "0 \<le> k" "c = shiftedCopy k b"
    "k = 0 \<or> (\<exists>s e. startDate b = ISODate s \<and> endDate b = ISODate e)"
    unfolding movedLater_def by blast
  have c: "c = shiftedCopy (j + k) a"
    using j(2) k(2) by (simp add: shiftedCopy_shiftedCopy)
  have "j + k = 0 \<or> (\<exists>s e. startDate a = ISODate s \<and> endDate a = ISODate e)"
  proof (cases "j = 0")
    case True
    with j(2) have "b = a" by simp
    with k(3) True show ?thesis by auto
  next
    case False
    with j(3) show ?thesis by simp
  qed
  with j(1) k(1) c show ?thesis
    unfolding movedLater_def by (intro exI [of _ "j + k"]) simp
qed

lemma shiftTask_movedLater: "shiftTask tm t = Inr (Some t') \<Longrightarrow> movedLater t t'"
proof -
  assume "shiftTask tm t = Inr (Some t')"
  from shiftTask_Some [OF this] obtain s e k where
    "0 < k" "startDate t = ISODate s" "endDate t = ISODate e"
    "t' = t\<lparr>startDate := ISODate (s + k), endDate := ISODate (e + k)\<rparr>"
    by blast
  then show ?thesis
    unfolding movedLater_def
    by (intro exI [of _ k]) (simp add: shiftedCopy_def plusDays_def)
qed

lemma forLoop_movedLater:
  assumes "forLoop tm 0 cur False = Inr (out, b)"
  shows "length out = length cur \<and> (\<forall>j<length cur. movedLater (cur ! j) (out ! j))"
proof -
  note F = forLoop_Inr [OF assms]
  have "movedLater (cur ! j) (out ! j)" if "j < length cur" for j
  proof (cases "shiftTask tm (cur ! j)")
    case (Inl e)
    with F that show ?thesis by (cases e) auto
  next
    case (Inr r)
    show ?thesis
    proof (cases r)
      case None
      with Inr F that have "out ! j = cur ! j" by simp
      then show ?thesis by (simp add: movedLater_refl)
    next
      case (Some t')
      with Inr F that have "out ! j = t'" by simp
      with Inr Some show ?thesis by (simp add: shiftTask_movedLater)
    qed
  qed
  with F show ?thesis by simp
qed

lemma whileLoop_invariant:
  assumes "whileLoop cur ch n = Inr (out, ch', n')"
    and "I cur"
    and step: "\<And>c c' b. I c \<Longrightarrow> forLoop (taskMapOf c) 0 c False = Inr (c', b) \<Longrightarrow> I c'"
  shows "I out"
  using assms(1,2)
proof (induction cur ch n rule: whileLoop.induct)
  case (1 cur ch n)
  show ?case
  proof (cases "ch \<and> n < 50")
    case False
    with "1.prems" show ?thesis by (auto simp: whileLoop.simps)
  next
    case True
    with "1.prems"(1) obtain c' b where
      p: "forLoop (taskMapOf cur) 0 cur False = Inr (c', b)" and
      w: "whileLoop c' b (n + 1) = Inr (out, ch', n')"
      by (auto simp: whileLoop.simps [of cur] split: sum.splits)
    have "I c'" using step [OF "1.prems"(2) p] .
    with "1.IH" [OF True _ _ w] p show ?thesis by simp
  qed
qed

lemma whileLoop_iterations:
  assumes "whileLoop cur ch n = Inr (out, ch', n')"
  shows "n \<le> n' \<and> (n \<le> 50 \<longrightarrow> n' \<le> 50) \<and> (ch \<and> n < 50 \<longrightarrow> n < n')"
  using assms
proof (induction cur ch n rule: whileLoop.induct)
  case (1 cur ch n)
  show ?case
  proof (cases "ch \<and> n < 50")
    case False
    with "1.prems" show ?thesis by (auto simp: whileLoop.simps)
  next
    case True
    with "1.prems"(1) obtain c' b where
      p: "forLoop (taskMapOf cur) 0 cur False = Inr (c', b)" and
      w: "whileLoop c' b (n + 1) = Inr (out, ch', n')"
      by (auto simp: whileLoop.simps [of cur] split: sum.splits)
    from "1.IH" [OF True _ _ w] p True show ?thesis by auto
  qed
qed

lemma forLoop_unchanged:
  assumes "forLoop tm 0 cur False = Inr (out, False)"
  shows "out = cur \<and> (\<forall>j<length cur. shiftTask tm (cur ! j) = Inr None)"
proof -
  note F = forLoop_Inr [OF assms]
  from F have n: "\<forall>j<length cur. shiftTask tm (cur ! j) = Inr None" by auto
  with F have "\<forall>j<length cur. out ! j = cur ! j" by simp
  with F have "out = cur" by (intro nth_equalityI) auto
  with n show ?thesis by simp
qed

lemma whileLoop_converged:
  assumes "whileLoop cur ch n = Inr (out, False, n')"
  shows "(\<not> ch \<and> out = cur) \<or> (\<forall>j<length out. shiftTask (taskMapOf out) (out ! j) = Inr None)"
  using assms
proof (induction cur ch n rule: whileLoop.induct)
  case (1 cur ch n)
  show ?case
  proof (cases "ch \<and> n < 50")
    case False
    with "1.prems" show ?thesis by (auto simp: whileLoop.simps)
  next
    case True
    with "1.prems"(1) obtain c' b where
      p: "forLoop (taskMapOf cur) 0 cur False = Inr (c', b)" and
      w: "whileLoop c' b (n + 1) = Inr (out, False, n')"
      by (auto simp: whileLoop.simps [of cur] split: sum.splits)
    from "1.IH" [OF True _ _ w] p
    have "(\<not> b \<and> out = c') \<or> (\<forall>j<length out. shiftTask (taskMapOf out) (out ! j) = Inr None)"
      by simp
    then show ?thesis
    proof
      assume a: "\<not> b \<and> out = c'"
      with p have "forLoop (taskMapOf cur) 0 cur False = Inr (out, False)" by simp
      from forLoop_unchanged [OF this] show ?thesis by simp
    next
      assume "\<forall>j<length out. shiftTask (taskMapOf out) (out ! j) = Inr None"
      then show ?thesis by simp
    qed
  qed
qed

lemma whileLoop_movedLater:
  assumes "whileLoop cur ch n = Inr (out, ch', n')"
  shows "length out = length cur \<and> (\<forall>j<length cur. movedLater (cur ! j) (out ! j))"
proof -
  let ?I = "\<lambda>c. length c = length cur \<and> (\<forall>j<length cur. movedLater (cur ! j) (c ! j))"
  have "?I out"
  proof (rule whileLoop_invariant [OF assms, where I = ?I])
    show "?I cur" by (simp add: movedLater_refl)
  next
    fix c c' b
    assume I: "?I c" and p: "forLoop (taskMapOf c) 0 c False = Inr (c', b)"
    from forLoop_movedLater [OF p] I
    show "?I c'" by (auto intro: movedLater_trans)
  qed
  then show ?thesis .
qed

lemma cascadeSchedule_Inr:
  "cascadeSchedule tasks = Inr out \<longleftrightarrow> (\<exists>ch n. whileLoop tasks True 0 = Inr (out, ch, n))"
  by (auto simp: cascadeSchedule_def split: sum.splits)

lemma cascadeSchedule_movedLater:
  assumes "cascadeSchedule tasks = Inr out"
  shows "length out = length tasks \<and> (\<forall>i<length tasks. movedLater (tasks ! i) (out ! i))"
  using assms whileLoop_movedLater unfolding cascadeSchedule_Inr by blast

lemma movedLater_cases:
  assumes "movedLater t t'"
  obtains "t' = t"
  | s e k where "0 < k" "startDate t = ISODate s" "endDate t = ISODate e"
      "t' = t\<lparr>startDate := ISODate (s + k), endDate := ISODate (e + k)\<rparr>"
proof -
  from assms obtain k where k: "0 \<le> k" "t' = shiftedCopy k t"
    "k = 0 \<or> (\<exists>s e. startDate t = ISODate s \<and> endDate t = ISODate e)"
    unfolding movedLater_def by blast
  show thesis
  proof (cases "k = 0")
    case True
    with k(2) have "t' = t" by simp
    then show thesis by (rule that(1))
  next
    case False
    with k(3) obtain s e where se: "startDate t = ISODate s" "endDate t = ISODate e" by blast
    with k(2) have "t' = t\<lparr>startDate := ISODate (s + k), endDate := ISODate (e + k)\<rparr>"
      by (simp add: shiftedCopy_def plusDays_def)
    with False k(1) se show thesis by (intro that(2) [of k s e]) simp_all
  qed
qed

lemma movedLater_durationDays: "movedLater t t' \<Longrightarrow> durationDays t' = durationDays t"
  by (erule movedLater_cases) (simp_all add: durationDays_def)

lemma movedLater_id: "movedLater t t' \<Longrightarrow> id_task t' = id_task t"
  by (auto simp: movedLater_def shiftedCopy_def)

lemma movedLater_dates:
  "movedLater t t' \<Longrightarrow>
   \<exists>k\<ge>0. startDate t' = plusDays k (startDate t) \<and> endDate t' = plusDays k (endDate t)"
  by (auto simp: movedLater_def shiftedCopy_def)

lemma set_resolvedEnds:
  "e \<in> set (resolvedEnds tm deps) \<longleftrightarrow>
     (\<exists>d \<in> set deps. \<exists>dep. tm d = Some dep \<and> getTime (endDate dep) = Some e)"
  by (induction deps) (auto simp: resolvedEnds_def split: option.splits)

lemma maxDependencyEnd_pos_iff:
  "0 < maxDependencyEnd tm deps \<longleftrightarrow> (\<exists>e \<in> set (resolvedEnds tm deps). 0 < e)"
proof
  assume pos: "0 < maxDependencyEnd tm deps"
  with maxDependencyEnd_cases [of tm deps]
  have "maxDependencyEnd tm deps \<in> set (resolvedEnds tm deps)"
    by (auto simp: set_resolvedEnds)
  with pos show "\<exists>e \<in> set (resolvedEnds tm deps). 0 < e" by blast
next
  assume "\<exists>e \<in> set (resolvedEnds tm deps). 0 < e"
  then obtain e where "e \<in> set (resolvedEnds tm deps)" "0 < e" by blast
  then show "0 < maxDependencyEnd tm deps"
    using maxDependencyEnd_upper [of _ deps tm _ e] by (fastforce simp: set_resolvedEnds)
qed

lemma msPerDay_pos: "0 < msPerDay"
  by (simp add: msPerDay_def)

lemma movedLater_datesOrdered: "movedLater t t' \<Longrightarrow> datesOrdered t' = datesOrdered t"
  by (erule movedLater_cases) (simp_all add: datesOrdered_def)

lemma find_snoc:
  "find P (xs @ [x]) = (case find P xs of Some y \<Rightarrow> Some y | None \<Rightarrow> if P x then Some x else None)"
  by (induction xs) auto

lemma fold_taskMap:
  "fold (\<lambda>t m. m(id_task t \<mapsto> t)) ts m0 k =
     (case find (\<lambda>t. id_task t = k) (rev ts) of None \<Rightarrow> m0 k | Some t \<Rightarrow> Some t)"
  by (induction ts arbitrary: m0) (auto simp: find_snoc split: option.splits)

lemma taskMapOf_find: "taskMapOf ts k = find (\<lambda>t. id_task t = k) (rev ts)"
  by (simp add: taskMapOf_def fold_taskMap split: option.splits)


lemma taskMapOf_Some: "taskMapOf ts k = Some t \<Longrightarrow> t \<in> set ts \<and> id_task t = k"
proof -
  assume "taskMapOf ts k = Some t"
  then have "find (\<lambda>t. id_task t = k) (rev ts) = Some t"
    by (simp add: taskMapOf_find)
  then obtain i where "i < length (rev ts)" "id_task (rev ts ! i) = k" "t = rev ts ! i"
    unfolding find_Some_iff by blast
  moreover from this have "rev ts ! i \<in> set (rev ts)" by (intro nth_mem)
  ultimately show ?thesis by simp
qed

lemma maxDependencyEnd_unresolved:
  assumes "\<forall>d \<in> set deps. tm d = None"
  shows "maxDependencyEnd tm deps = 0"
proof -
  have "fold (forEachStep tm) deps m = m" for m
    using assms by (induction deps arbitrary: m) (simp_all add: forEachStep_def)
  then show ?thesis by (simp add: maxDependencyEnd_def)
qed

lemma shiftTask_unresolved:
  "\<forall>d \<in> set (dependencies t). tm d = None \<Longrightarrow> shiftTask tm t = Inr None"
  by (simp add: shiftTask_None_iff maxDependencyEnd_unresolved)

lemma forLoop_nth_unchanged:
  assumes "forLoop tm 0 cur False = Inr (out, b)" "j < length cur"
    "shiftTask tm (cur ! j) = Inr None"
  shows "out ! j = cur ! j"
  using forLoop_Inr [OF assms(1)] assms(2,3) by simp





lemma getTime_onOrBeforeEpoch:
  "onOrBeforeEpoch s \<Longrightarrow> getTime s = Some e \<Longrightarrow> e \<le> 0"
  by (auto simp: onOrBeforeEpoch_def getTime_Some_iff msPerDay_def split: dateStr.splits)

lemma forEachStep_unresolveEpochEnds:
  assumes "0 \<le> m"
  shows "forEachStep (unresolveEpochEnds tm) d m = forEachStep tm d m"
proof (cases "tm d")
  case None
  then show ?thesis by (simp add: forEachStep_def unresolveEpochEnds_def)
next
  case (Some dep)
  show ?thesis
  proof (cases "onOrBeforeEpoch (endDate dep)")
    case True
    with Some assms getTime_onOrBeforeEpoch [OF True] show ?thesis
      by (cases "getTime (endDate dep)") (auto simp: forEachStep_def unresolveEpochEnds_def)
  next
    case False
    with Some show ?thesis by (simp add: forEachStep_def unresolveEpochEnds_def)
  qed
qed

lemma forEachStep_ge: "m \<le> forEachStep tm d m"
  by (simp add: forEachStep_def split: option.splits)

lemma maxDependencyEnd_unresolveEpochEnds:
  "maxDependencyEnd (unresolveEpochEnds tm) deps = maxDependencyEnd tm deps"
proof -
  have "fold (forEachStep (unresolveEpochEnds tm)) deps m = fold (forEachStep tm) deps m"
    if "0 \<le> m" for m
    using that
  proof (induction deps arbitrary: m)
    case Nil
    show ?case by simp
  next
    case (Cons d deps)
    have "0 \<le> forEachStep tm d m"
      using Cons.prems forEachStep_ge [of m tm d] by simp
    from Cons.IH [OF this] Cons.prems show ?case
      by (simp add: forEachStep_unresolveEpochEnds)
  qed
  then show ?thesis by (simp add: maxDependencyEnd_def)
qed

lemma shiftTask_unresolveEpochEnds: "shiftTask (unresolveEpochEnds tm) t = shiftTask tm t"
  by (simp add: shiftTask_def maxDependencyEnd_unresolveEpochEnds)

lemma movedLater_onOrBeforeEpoch:
  assumes "movedLater t t'" "onOrBeforeEpoch (endDate t')"
  shows "onOrBeforeEpoch (endDate t)"
  using assms by (elim movedLater_cases) (auto simp: onOrBeforeEpoch_def)

lemma movedLater_dependencies: "movedLater t t' \<Longrightarrow> dependencies t' = dependencies t"
  by (erule movedLater_cases) simp_all

lemma whileLoop_epoch_task:
  assumes "whileLoop cur ch n = Inr (out, ch', n')" and "i < length cur"
    and "\<forall>dep \<in> set out. id_task dep \<in> set (dependencies (cur ! i)) \<longrightarrow>
            onOrBeforeEpoch (endDate dep)"
  shows "out ! i = cur ! i"
  using assms
proof (induction cur ch n rule: whileLoop.induct)
  case (1 cur ch n)
  show ?case
  proof (cases "ch \<and> n < 50")
    case False
    with "1.prems"(1) show ?thesis by (auto simp: whileLoop.simps)
  next
    case True
    with "1.prems"(1) obtain c' b where
      p: "forLoop (taskMapOf cur) 0 cur False = Inr (c', b)" and
      w: "whileLoop c' b (n + 1) = Inr (out, ch', n')"
      by (auto simp: whileLoop.simps [of cur] split: sum.splits)
    note P = forLoop_movedLater [OF p]
    note W = whileLoop_movedLater [OF "1.prems"(1)]
    from P "1.prems"(2) have i': "i < length c'" by simp
    from P "1.prems"(2) have "dependencies (c' ! i) = dependencies (cur ! i)"
      by (simp add: movedLater_dependencies)
    with "1.prems"(3) have ep': "\<forall>dep \<in> set out. id_task dep \<in> set (dependencies (c' ! i)) \<longrightarrow>
            onOrBeforeEpoch (endDate dep)"
      by simp
    have rest: "out ! i = c' ! i"
      using "1.IH" [OF True _ _ w i' ep'] p by simp
    have "unresolveEpochEnds (taskMapOf cur) d = None" if d: "d \<in> set (dependencies (cur ! i))" for d
    proof (cases "taskMapOf cur d")
      case None
      then show ?thesis by (simp add: unresolveEpochEnds_def)
    next
      case (Some dep)
      from taskMapOf_Some [OF Some] obtain j where j: "j < length cur" "dep = cur ! j" "id_task dep = d"
        by (metis in_set_conv_nth)
      with W have m: "movedLater (cur ! j) (out ! j)" and lo: "j < length out" by simp_all
      from m j have "id_task (out ! j) = d" by (simp add: movedLater_id)
      moreover from lo have "out ! j \<in> set out" by simp
      ultimately have "onOrBeforeEpoch (endDate (out ! j))" using "1.prems"(3) d by blast
      with m have "onOrBeforeEpoch (endDate (cur ! j))" by (rule movedLater_onOrBeforeEpoch)
      with Some j show ?thesis by (simp add: unresolveEpochEnds_def)
    qed
    then have "shiftTask (unresolveEpochEnds (taskMapOf cur)) (cur ! i) = Inr None"
      by (intro shiftTask_unresolved) simp
    then have "shiftTask (taskMapOf cur) (cur ! i) = Inr None"
      by (simp add: shiftTask_unresolveEpochEnds)
    with forLoop_nth_unchanged [OF p "1.prems"(2)] rest show ?thesis by simp
  qed
qed

lemma cascadeSchedule_epoch_output:
  assumes "cascadeSchedule tasks = Inr out" "i < length tasks"
    and "\<forall>dep \<in> set out. id_task dep \<in> set (dependencies (tasks ! i)) \<longrightarrow>
            onOrBeforeEpoch (endDate dep)"
  shows "out ! i = tasks ! i"
  using assms whileLoop_epoch_task unfolding cascadeSchedule_Inr by blast

lemma movedLater_sameButDates: "movedLater t t' \<Longrightarrow> sameButDates t t'"
  by (erule movedLater_cases) (simp_all add: sameButDates_def)

lemma applyChange_fields:
  "id_task (applyChange changes t) = id_task t \<and>
   status (applyChange changes t) = status t \<and>
   gmpCritical (applyChange changes t) = gmpCritical t \<and>
   category (applyChange changes t) = category t \<and>
   dependencies (applyChange changes t) = dependencies t"
  by (simp add: applyChange_def split: option.splits)

lemma checkLoop_no_violation:
  "find (violatedBy u all) deps = None \<Longrightarrow> checkLoop tza u all deps = Inr None"
  by (induction deps) (auto simp: violatedBy_def split: option.splits if_splits)

lemma checkLoop_first_violation:
  assumes "find (violatedBy u all) deps = Some depId"
  shows "\<exists>depTask e. find (\<lambda>t. id_task t = depId) all = Some depTask \<and>
           getTime (endDate depTask) = Some e \<and>
           checkLoop tza u all deps =
             (case setDateNextDay tza e of
                None \<Rightarrow> Inl RangeError
              | Some suggested \<Rightarrow>
                  Inr (Some \<lparr>dependency = depTask,
                             suggestedDate = ISODate (suggested div msPerDay)\<rparr>))"
  using assms
proof (induction deps)
  case Nil
  then show ?case by simp
next
  case (Cons d deps)
  show ?case
  proof (cases "violatedBy u all d")
    case True
    with Cons.prems have "depId = d" by simp
    with True show ?thesis
      by (auto simp: violatedBy_def split: option.splits)
  next
    case False
    with Cons.prems have "find (violatedBy u all) deps = Some depId" by simp
    from Cons.IH [OF this] False show ?thesis
      by (auto simp: violatedBy_def split: option.splits)
  qed
qed

lemma setDateNextDay_steady:
  assumes "steadyOffset tza (d * msPerDay)" "- 100000000 \<le> d" "d + 1 < 100000000"
  shows "\<exists>u. setDateNextDay tza (d * msPerDay) = Some u \<and> u div msPerDay = d + 1"
proof -
  define dl where "dl = tza (d * msPerDay) True - tza (LocalTime tza (d * msPerDay) + msPerDay) False"
  from assms(1) have dl: "0 \<le> dl" "dl < msPerDay"
    by (simp_all add: steadyOffset_def dl_def Let_def)
  have u: "UTC tza (LocalTime tza (d * msPerDay) + msPerDay) = (d + 1) * msPerDay + dl"
    by (simp add: UTC_def LocalTime_def dl_def algebra_simps)
  have "\<bar>(d + 1) * msPerDay + dl\<bar> \<le> maxTime"
    using dl assms(2,3) by (simp add: msPerDay_def maxTime_def)
  moreover have "((d + 1) * msPerDay + dl) div msPerDay = d + 1"
    using dl msPerDay_pos by (simp add: div_pos_pos_trivial)
  ultimately show ?thesis
    by (simp add: setDateNextDay_def Let_def u TimeClip_def)
qed

lemma steadyOffset_fixedOffset: "steadyOffset (fixedOffset off) t"
  by (simp add: steadyOffset_def fixedOffset_def msPerDay_def)

declare forLoopS.simps [simp del] whileLoopS.simps [simp del]

lemma length_setElement [simp]:
  "length (arrays (setElement a i r st) ! a) = length (arrays st ! a)"
  by (cases "a < length (arrays st)") (simp_all add: setElement_def list_update_beyond)

lemma derefMap_upd:
  "derefMap st (m(k \<mapsto> r)) = (derefMap st m)(k \<mapsto> objects st ! r)"
  by (rule ext) (simp add: derefMap_def)

lemma derefMap_fold:
  "derefMap st (fold (\<lambda>r m. m(id_task (objects st ! r) \<mapsto> r)) refs m0) =
   fold (\<lambda>t m. m(id_task t \<mapsto> t)) (map (nth (objects st)) refs) (derefMap st m0)"
  by (induction refs arbitrary: m0) (simp_all add: derefMap_upd)

lemma derefMap_refMapOf:
  "derefMap st (refMapOf st refs) = taskMapOf (map (nth (objects st)) refs)"
proof -
  have "derefMap st Map.empty = Map.empty"
    by (rule ext) (simp add: derefMap_def)
  then show ?thesis
    by (simp add: refMapOf_def taskMapOf_def derefMap_fold)
qed

lemma fold_refMap_range:
  "fold (\<lambda>r m. m(id_task (objects st ! r) \<mapsto> r)) refs m0 k = Some r \<Longrightarrow>
   r \<in> set refs \<or> m0 k = Some r"
proof (induction refs arbitrary: m0)
  case Nil
  then show ?case by simp
next
  case (Cons a refs)
  from Cons.prems have
    "fold (\<lambda>r m. m(id_task (objects st ! r) \<mapsto> r)) refs
       (m0(id_task (objects st ! a) \<mapsto> a)) k = Some r"
    by (simp only: fold.simps comp_apply)
  from Cons.IH [OF this] show ?case
    by (auto split: if_splits)
qed

lemma refMapOf_range: "refMapOf st refs k = Some r \<Longrightarrow> r \<in> set refs"
  using fold_refMap_range [of st refs Map.empty k r] by (simp add: refMapOf_def)

lemma derefMap_extend:
  assumes "\<forall>k r. m k = Some r \<longrightarrow> r < length (objects st)"
    and "objects st' = objects st @ os"
  shows "derefMap st' m = derefMap st m"
proof (rule ext)
  fix k
  show "derefMap st' m k = derefMap st m k"
  proof (cases "m k")
    case None
    then show ?thesis by (simp add: derefMap_def)
  next
    case (Some r)
    with assms(1) have "r < length (objects st)" by blast
    with Some assms(2) show ?thesis by (simp add: derefMap_def nth_append)
  qed
qed

lemma passExt_refl:
  "\<forall>r \<in> set (arrays st ! c). r < length (objects st) \<Longrightarrow> passExt st st c"
  by (simp add: passExt_def)

lemma passExt_trans:
  assumes "passExt a b c" "passExt b d c"
  shows "passExt a d c"
proof -
  from assms obtain os os' where o: "objects b = objects a @ os" "objects d = objects b @ os'"
    unfolding passExt_def by blast
  then have 1: "\<exists>os. objects d = objects a @ os" by simp
  from assms have 2: "length (arrays d) = length (arrays a)"
    and 3: "\<forall>x. x \<noteq> c \<longrightarrow> arrays d ! x = arrays a ! x"
    and 4: "length (arrays d ! c) = length (arrays a ! c)"
    and 6: "\<forall>r \<in> set (arrays d ! c). r < length (objects d)"
    unfolding passExt_def by simp_all
  have 5: "arrays d ! c ! j = arrays a ! c ! j \<or> length (objects a) \<le> arrays d ! c ! j"
    if "j < length (arrays a ! c)" for j
  proof -
    from assms(1) that have ab:
      "arrays b ! c ! j = arrays a ! c ! j \<or> length (objects a) \<le> arrays b ! c ! j"
      unfolding passExt_def by blast
    from assms that have "j < length (arrays b ! c)" unfolding passExt_def by simp
    with assms(2) have bd:
      "arrays d ! c ! j = arrays b ! c ! j \<or> length (objects b) \<le> arrays d ! c ! j"
      unfolding passExt_def by blast
    from o have "length (objects a) \<le> length (objects b)" by simp
    with ab bd show ?thesis by auto
  qed
  from 1 2 3 4 5 6 show ?thesis unfolding passExt_def by blast
qed

lemma passExt_step:
  assumes c: "c < length (arrays st)" and i: "i < length (arrays st ! c)"
    and v: "\<forall>r \<in> set (arrays st ! c). r < length (objects st)"
  shows "passExt st (setElement c i (length (objects st)) (st\<lparr>objects := objects st @ [t']\<rparr>)) c"
proof -
  let ?st2 = "setElement c i (length (objects st)) (st\<lparr>objects := objects st @ [t']\<rparr>)"
  have arr: "arrays ?st2 = (arrays st)[c := (arrays st ! c)[i := length (objects st)]]"
    by (simp add: setElement_def)
  have obj: "objects ?st2 = objects st @ [t']"
    by (simp add: setElement_def)
  have cc: "arrays ?st2 ! c = (arrays st ! c)[i := length (objects st)]"
    using c by (simp add: arr)
  have "\<forall>r \<in> set (arrays ?st2 ! c). r < length (objects ?st2)"
  proof
    fix r assume "r \<in> set (arrays ?st2 ! c)"
    then have "r \<in> insert (length (objects st)) (set (arrays st ! c))"
      using set_update_subset_insert cc by fastforce
    with v show "r < length (objects ?st2)" by (auto simp: obj less_Suc_eq)
  qed
  moreover have "\<forall>j<length (arrays st ! c).
        arrays ?st2 ! c ! j = arrays st ! c ! j \<or> length (objects st) \<le> arrays ?st2 ! c ! j"
  proof (intro allI impI)
    fix j assume "j < length (arrays st ! c)"
    then show "arrays ?st2 ! c ! j = arrays st ! c ! j \<or>
               length (objects st) \<le> arrays ?st2 ! c ! j"
      by (cases "j = i") (simp_all add: cc)
  qed
  moreover have "\<forall>a. a \<noteq> c \<longrightarrow> arrays ?st2 ! a = arrays st ! a"
    by (simp add: arr)
  ultimately show ?thesis
    unfolding passExt_def using obj cc by (simp add: arr)
qed

lemma absTasks_step:
  assumes c: "c < length (arrays st)" and i: "i < length (arrays st ! c)"
    and v: "\<forall>r \<in> set (arrays st ! c). r < length (objects st)"
  shows "absTasks (setElement c i (length (objects st)) (st\<lparr>objects := objects st @ [t']\<rparr>)) c =
         (absTasks st c)[i := t']"
proof -
  let ?st2 = "setElement c i (length (objects st)) (st\<lparr>objects := objects st @ [t']\<rparr>)"
  have cc: "arrays ?st2 ! c = (arrays st ! c)[i := length (objects st)]"
    using c by (simp add: setElement_def)
  have obj: "objects ?st2 = objects st @ [t']"
    by (simp add: setElement_def)
  show ?thesis
  proof (rule nth_equalityI)
    show "length (absTasks ?st2 c) = length ((absTasks st c)[i := t'])"
      by (simp add: absTasks_def cc)
  next
    fix j assume "j < length (absTasks ?st2 c)"
    then have j: "j < length (arrays st ! c)" by (simp add: absTasks_def cc)
    show "absTasks ?st2 c ! j = (absTasks st c)[i := t'] ! j"
    proof (cases "j = i")
      case True
      with j show ?thesis by (simp add: absTasks_def cc obj)
    next
      case False
      from j v have "arrays st ! c ! j < length (objects st)" by simp
      with False j show ?thesis by (simp add: absTasks_def cc obj nth_append)
    qed
  qed
qed

lemma forLoopS_sim:
  assumes "c < length (arrays st)"
    and "\<forall>r \<in> set (arrays st ! c). r < length (objects st)"
    and "\<forall>k r. taskMap k = Some r \<longrightarrow> r < length (objects st)"
    and "derefMap st taskMap = tm"
  shows "case forLoop tm i (absTasks st c) ch of
           Inl e \<Rightarrow> forLoopS taskMap c i st ch = Inl e
         | Inr (out, ch') \<Rightarrow>
             (\<exists>st'. forLoopS taskMap c i st ch = Inr (st', ch') \<and>
                    absTasks st' c = out \<and> passExt st st' c)"
  using assms
proof (induction taskMap c i st ch rule: forLoopS.induct)
  case (1 taskMap c i st ch)
  have len: "length (absTasks st c) = length (arrays st ! c)"
    by (simp add: absTasks_def)
  show ?case
  proof (cases "i < length (arrays st ! c)")
    case False
    with len have "forLoop tm i (absTasks st c) ch = Inr (absTasks st c, ch)"
      by (simp add: forLoop.simps)
    moreover from False have "forLoopS taskMap c i st ch = Inr (st, ch)"
      by (simp add: forLoopS.simps)
    ultimately show ?thesis
      using passExt_refl [OF "1.prems"(2)] by simp
  next
    case True
    note i = this
    have nth: "absTasks st c ! i = objects st ! (arrays st ! c ! i)"
      using i by (simp add: absTasks_def)
    show ?thesis
    proof (cases "shiftTask tm (objects st ! (arrays st ! c ! i))")
      case (Inl e)
      with i len nth "1.prems"(4) show ?thesis
        by (simp add: forLoop.simps [of tm i] forLoopS.simps [of taskMap c i])
    next
      case (Inr r)
      show ?thesis
      proof (cases r)
        case None
        from Inr None "1.prems"(4)
        have sh: "shiftTask (derefMap st taskMap) (objects st ! (arrays st ! c ! i)) = Inr None"
          by simp
        have a: "forLoop tm i (absTasks st c) ch = forLoop tm (i + 1) (absTasks st c) ch"
          using i len nth Inr None by (simp add: forLoop.simps [of tm i])
        have b: "forLoopS taskMap c i st ch = forLoopS taskMap c (i + 1) st ch"
          using i sh by (simp add: forLoopS.simps [of taskMap c i])
        show ?thesis
          unfolding a b
          by (rule "1.IH"(1) [OF i sh refl "1.prems"(1) "1.prems"(2) "1.prems"(3) "1.prems"(4)])
      next
        case (Some t')
        let ?st1 = "st\<lparr>objects := objects st @ [t']\<rparr>"
        let ?st2 = "setElement c i (length (objects st)) ?st1"
        from Inr Some "1.prems"(4)
        have sh: "shiftTask (derefMap st taskMap) (objects st ! (arrays st ! c ! i)) = Inr (Some t')"
          by simp
        have no: "newObject t' st = (length (objects st), ?st1)"
          by (simp add: newObject_def)
        have a: "forLoop tm i (absTasks st c) ch = forLoop tm (i + 1) ((absTasks st c)[i := t']) True"
          using i len nth Inr Some by (simp add: forLoop.simps [of tm i])
        have b: "forLoopS taskMap c i st ch = forLoopS taskMap c (i + 1) ?st2 True"
          using i sh no by (simp add: forLoopS.simps [of taskMap c i])
        have ext: "passExt st ?st2 c"
          by (rule passExt_step [OF "1.prems"(1) i "1.prems"(2)])
        have abs: "absTasks ?st2 c = (absTasks st c)[i := t']"
          by (rule absTasks_step [OF "1.prems"(1) i "1.prems"(2)])
        have obj2: "objects ?st2 = objects st @ [t']"
          by (simp add: setElement_def)
        have p1: "c < length (arrays ?st2)"
          using "1.prems"(1) by (simp add: setElement_def)
        have p2: "\<forall>r \<in> set (arrays ?st2 ! c). r < length (objects ?st2)"
          using ext unfolding passExt_def by blast
        have p3: "\<forall>k r. taskMap k = Some r \<longrightarrow> r < length (objects ?st2)"
          using "1.prems"(3) by (auto simp: obj2 less_Suc_eq)
        have p4: "derefMap ?st2 taskMap = tm"
          using derefMap_extend [OF "1.prems"(3) obj2] "1.prems"(4) by simp
        have IH: "case forLoop tm (i + 1) ((absTasks st c)[i := t']) True of
           Inl e \<Rightarrow> forLoopS taskMap c (i + 1) ?st2 True = Inl e
         | Inr (out, ch') \<Rightarrow>
             (\<exists>st'. forLoopS taskMap c (i + 1) ?st2 True = Inr (st', ch') \<and>
                    absTasks st' c = out \<and> passExt ?st2 st' c)"
          using "1.IH"(2) [OF i sh refl no [symmetric] p1 p2 p3 p4] unfolding abs .
        show ?thesis
        proof (cases "forLoop tm (i + 1) ((absTasks st c)[i := t']) True")
          case (Inl e)
          with IH show ?thesis unfolding a b by simp
        next
          case (Inr res)
          obtain out ch' where res: "res = (out, ch')" by (cases res)
          with Inr IH obtain st' where
            "forLoopS taskMap c (i + 1) ?st2 True = Inr (st', ch')"
            "absTasks st' c = out" "passExt ?st2 st' c"
            by auto
          with passExt_trans [OF ext] Inr res show ?thesis unfolding a b by auto
        qed
      qed
    qed
  qed
qed

lemma whileLoopS_sim:
  assumes "c < length (arrays st)"
    and "\<forall>r \<in> set (arrays st ! c). r < length (objects st)"
  shows "case whileLoop (absTasks st c) ch n of
           Inl e \<Rightarrow> whileLoopS c st ch n = Inl e
         | Inr (out, ch', n') \<Rightarrow>
             (\<exists>st'. whileLoopS c st ch n = Inr (st', ch', n') \<and>
                    absTasks st' c = out \<and> passExt st st' c)"
  using assms
proof (induction c st ch n rule: whileLoopS.induct)
  case (1 c st ch n)
  show ?case
  proof (cases "ch \<and> n < 50")
    case False
    then have "whileLoop (absTasks st c) ch n = Inr (absTasks st c, ch, n)"
      "whileLoopS c st ch n = Inr (st, ch, n)"
      by (auto simp: whileLoop.simps whileLoopS.simps)
    with passExt_refl [OF "1.prems"(2)] show ?thesis by simp
  next
    case True
    let ?rm = "refMapOf st (arrays st ! c)"
    let ?tm = "taskMapOf (absTasks st c)"
    have tm: "derefMap st ?rm = ?tm"
      by (simp add: derefMap_refMapOf absTasks_def)
    have rng: "\<forall>k r. ?rm k = Some r \<longrightarrow> r < length (objects st)"
      using refMapOf_range "1.prems"(2) by blast
    note F = forLoopS_sim [OF "1.prems"(1,2) rng tm, of 0 False]
    show ?thesis
    proof (cases "forLoop ?tm 0 (absTasks st c) False")
      case (Inl e)
      with F True show ?thesis
        by (simp add: whileLoop.simps [of "absTasks st c"] whileLoopS.simps [of c st])
    next
      case (Inr res)
      obtain out1 ch1 where res: "res = (out1, ch1)" by (cases res)
      with Inr F obtain st1 where
        s1: "forLoopS ?rm c 0 st False = Inr (st1, ch1)" and
        a1: "absTasks st1 c = out1" and e1: "passExt st st1 c"
        by auto
      have w: "whileLoop (absTasks st c) ch n = whileLoop out1 ch1 (n + 1)"
        using True Inr res by (simp add: whileLoop.simps [of "absTasks st c"])
      have ws: "whileLoopS c st ch n = whileLoopS c st1 ch1 (n + 1)"
        using True s1 by (simp add: whileLoopS.simps [of c st])
      have p1: "c < length (arrays st1)"
        using e1 "1.prems"(1) unfolding passExt_def by simp
      have p2: "\<forall>r \<in> set (arrays st1 ! c). r < length (objects st1)"
        using e1 unfolding passExt_def by blast
      note IH = "1.IH" [OF True s1 refl p1 p2]
      show ?thesis
      proof (cases "whileLoop out1 ch1 (n + 1)")
        case (Inl e)
        with IH a1 w ws show ?thesis by simp
      next
        case (Inr res2)
        obtain out ch' n' where res2: "res2 = (out, ch', n')" by (cases res2)
        with Inr IH a1 obtain st' where
          "whileLoopS c st1 ch1 (n + 1) = Inr (st', ch', n')"
          "absTasks st' c = out" "passExt st1 st' c"
          by auto
        with passExt_trans [OF e1] w ws Inr res2 show ?thesis by auto
      qed
    qed
  qed
qed

lemma copyEach_spec:
  assumes "\<forall>r \<in> set refs. r < length (objects st)"
  shows "copyEach refs st =
           ([length (objects st) ..< length (objects st) + length refs],
            st\<lparr>objects := objects st @ map (nth (objects st)) refs\<rparr>)"
  using assms
proof (induction refs arbitrary: st)
  case Nil
  show ?case by simp
next
  case (Cons r rs)
  let ?st1 = "st\<lparr>objects := objects st @ [objects st ! r]\<rparr>"
  have no: "newObject (objects st ! r) st = (length (objects st), ?st1)"
    by (simp add: newObject_def)
  have v1: "\<forall>r \<in> set rs. r < length (objects ?st1)"
    using Cons.prems by (auto simp: less_Suc_eq)
  have m: "map (nth (objects ?st1)) rs = map (nth (objects st)) rs"
    using Cons.prems by (simp add: nth_append)
  have u: "[length (objects st) ..< length (objects st) + length (r # rs)] =
           length (objects st) # [length (objects ?st1) ..< length (objects ?st1) + length rs]"
  proof -
    have "[length (objects st) ..< length (objects st) + length (r # rs)] =
          length (objects st) # [Suc (length (objects st)) ..< length (objects st) + length (r # rs)]"
      by (rule upt_conv_Cons) simp
    moreover have "length (objects st) + length (r # rs) = length (objects ?st1) + length rs"
      by simp
    moreover have "Suc (length (objects st)) = length (objects ?st1)" by simp
    ultimately show ?thesis by (simp only:)
  qed
  have o: "?st1\<lparr>objects := objects ?st1 @ map (nth (objects ?st1)) rs\<rparr> =
           st\<lparr>objects := objects st @ map (nth (objects st)) (r # rs)\<rparr>"
    unfolding m by simp
  have "copyEach (r # rs) st =
          (length (objects st) # [length (objects ?st1) ..< length (objects ?st1) + length rs],
           ?st1\<lparr>objects := objects ?st1 @ map (nth (objects ?st1)) rs\<rparr>)"
    by (simp only: copyEach.simps no Cons.IH [OF v1] prod.case)
  then show ?case
    unfolding u o .
qed

lemma map_nth_upt_append:
  "map (nth (xs @ ys)) [length xs ..< length xs + length ys] = ys"
  by (rule nth_equalityI) (simp_all add: nth_append)

lemma cascadeScheduleS_sim:
  assumes t: "tasks < length (arrays st)"
    and v: "\<forall>r \<in> set (arrays st ! tasks). r < length (objects st)"
  shows "case cascadeSchedule (absTasks st tasks) of
           Inl e \<Rightarrow> cascadeScheduleS tasks st = Inl e
         | Inr out \<Rightarrow>
             (\<exists>st'. cascadeScheduleS tasks st = Inr (length (arrays st), st') \<and>
                    absTasks st' (length (arrays st)) = out \<and>
                    freshResult st st' (length (arrays st)))"
proof -
  let ?n = "length (objects st)"
  let ?c = "length (arrays st)"
  let ?copies = "map (nth (objects st)) (arrays st ! tasks)"
  let ?refs = "[?n ..< ?n + length (arrays st ! tasks)]"
  let ?st1 = "st\<lparr>objects := objects st @ ?copies\<rparr>"
  let ?st2 = "?st1\<lparr>arrays := arrays ?st1 @ [?refs]\<rparr>"
  have ce: "copyEach (arrays st ! tasks) st = (?refs, ?st1)"
    by (rule copyEach_spec [OF v])
  have na: "newArray ?refs ?st1 = (?c, ?st2)"
    by (simp add: newArray_def)
  have run: "cascadeScheduleS tasks st =
          (case whileLoopS ?c ?st2 True 0 of
             Inl e \<Rightarrow> Inl e
           | Inr (st', hasChanged, iterations) \<Rightarrow> Inr (?c, st'))"
    by (simp only: cascadeScheduleS_def ce na prod.case)
  have arr2: "arrays ?st2 ! ?c = ?refs" by simp
  have obj2: "objects ?st2 = objects st @ ?copies" by simp
  have abs2: "absTasks ?st2 ?c = absTasks st tasks"
    unfolding absTasks_def arr2 obj2
    using map_nth_upt_append [of "objects st" ?copies] by simp
  have p1: "?c < length (arrays ?st2)" by simp
  have p2: "\<forall>r \<in> set (arrays ?st2 ! ?c). r < length (objects ?st2)"
    unfolding arr2 obj2 by simp
  note W = whileLoopS_sim [OF p1 p2, of True 0, unfolded abs2]
  show ?thesis
  proof (cases "whileLoop (absTasks st tasks) True 0")
    case (Inl e)
    with W run show ?thesis by (simp add: cascadeSchedule_def)
  next
    case (Inr res)
    obtain out ch n where res: "res = (out, ch, n)" by (cases res)
    with Inr W obtain st' where
      w: "whileLoopS ?c ?st2 True 0 = Inr (st', ch, n)" and
      a: "absTasks st' ?c = out" and e: "passExt ?st2 st' ?c"
      by auto
    from e obtain os where os: "objects st' = objects ?st2 @ os"
      unfolding passExt_def by blast
    have f1: "take ?n (objects st') = objects st"
      by (simp add: os)
    from e have la: "length (arrays st') = Suc ?c"
      unfolding passExt_def by simp
    have f2: "take ?c (arrays st') = arrays st"
    proof (rule nth_equalityI)
      show "length (take ?c (arrays st')) = length (arrays st)" by (simp add: la)
    next
      fix j assume "j < length (take ?c (arrays st'))"
      then have j: "j < ?c" by simp
      with e have "arrays st' ! j = arrays ?st2 ! j" unfolding passExt_def by simp
      with j show "take ?c (arrays st') ! j = arrays st ! j" by (simp add: nth_append)
    qed
    have f3: "\<forall>r \<in> set (arrays st' ! ?c). ?n \<le> r \<and> r < length (objects st')"
    proof
      fix r assume r: "r \<in> set (arrays st' ! ?c)"
      from e have len: "length (arrays st' ! ?c) = length (arrays ?st2 ! ?c)"
        unfolding passExt_def by blast
      from r obtain j where j: "j < length (arrays st' ! ?c)" "r = arrays st' ! ?c ! j"
        by (metis in_set_conv_nth)
      with len have j2: "j < length (arrays ?st2 ! ?c)" by simp
      with e have "arrays st' ! ?c ! j = arrays ?st2 ! ?c ! j \<or>
                   length (objects ?st2) \<le> arrays st' ! ?c ! j"
        unfolding passExt_def by blast
      moreover from j2 have "?n \<le> arrays ?st2 ! ?c ! j" by simp
      moreover have "?n \<le> length (objects ?st2)" by simp
      ultimately have "?n \<le> r" using j(2) by linarith
      moreover from e r have "r < length (objects st')" unfolding passExt_def by blast
      ultimately show "?n \<le> r \<and> r < length (objects st')" by simp
    qed
    from f1 f2 f3 la have "freshResult st st' ?c"
      by (simp add: freshResult_def)
    with run w a Inr res show ?thesis by (simp add: cascadeSchedule_def)
  qed
qed

lemma cascadeSchedule_sameButDates:
  assumes "cascadeSchedule ts = Inr out"
  shows "length out = length ts \<and> (\<forall>i<length ts. sameButDates (ts ! i) (out ! i))"
  using cascadeSchedule_movedLater [OF assms] by (simp add: movedLater_sameButDates)

lemma sameButDates_fields:
  assumes "sameButDates t t'"
  shows "id_task t' = id_task t \<and> name t' = name t \<and> assignee t' = assignee t \<and>
         category t' = category t \<and> duration t' = duration t \<and> status t' = status t \<and>
         dependencies t' = dependencies t \<and> gmpCritical t' = gmpCritical t \<and>
         progress t' = progress t \<and> isNew t' = isNew t \<and> reason t' = reason t"
proof -
  from assms have e: "t' = t\<lparr>startDate := startDate t', endDate := endDate t'\<rparr>"
    by (simp add: sameButDates_def)
  show ?thesis by (subst e, simp)+
qed













section \<open>The claims\<close>

text \<open>
  Claim C1, as stated, fails: after the 50 passes on the cycle "A depends on B, B depends
  on A" both tasks sit on the same day; a dependency that ends before 1970-01-01 never
  constrains its dependant; and a task whose start date does not parse is never moved.
\<close>

theorem cascadeSchedule_output_violates_finish_to_start:
  "cascadeSchedule [mkTask ''A'' 10 10 [''B''], mkTask ''B'' 10 10 [''A'']] =
     Inr [mkTask ''A'' 60 60 [''B''], mkTask ''B'' 60 60 [''A'']] \<and>
   \<not> finishToStart [mkTask ''A'' 60 60 [''B''], mkTask ''B'' 60 60 [''A'']] \<and>
   cascadeSchedule [mkTask ''A'' (-30) (-20) [''B''], mkTask ''B'' (-20) (-10) []] =
     Inr [mkTask ''A'' (-30) (-20) [''B''], mkTask ''B'' (-20) (-10) []] \<and>
   \<not> finishToStart [mkTask ''A'' (-30) (-20) [''B''], mkTask ''B'' (-20) (-10) []] \<and>
   cascadeSchedule [(mkTask ''A'' 0 19650 [''B''])\<lparr>startDate := Malformed\<rparr>,
                    mkTask ''B'' 19631 19640 []] =
     Inr [(mkTask ''A'' 0 19650 [''B''])\<lparr>startDate := Malformed\<rparr>,
          mkTask ''B'' 19631 19640 []] \<and>
   \<not> finishToStart [(mkTask ''A'' 0 19650 [''B''])\<lparr>startDate := Malformed\<rparr>,
                      mkTask ''B'' 19631 19640 []]"
  by code_simp

text \<open>
  Claim C1, amended. When the \<^verbatim>\<open>while\<close> loop is left because a pass changed nothing
  (\<open>hasChanged\<close> is false, so the cap of 50 passes did not cut the cascade short), every
  task of the output whose start date parses and that has a resolved dependency ending
  after 1970-01-01 starts strictly after the end of each of its resolved dependencies.
\<close>

theorem cascadeSchedule_converged_finish_to_start:
  assumes conv: "whileLoop tasks True 0 = Inr (out, False, n)"
    and i: "i < length out"
    and s: "getTime (startDate (out ! i)) \<noteq> None"
    and pos: "list_ex (\<lambda>e. 0 < e) (resolvedEnds (taskMapOf out) (dependencies (out ! i)))"
  shows "cascadeSchedule tasks = Inr out \<and> startsAfterDependencies (taskMapOf out) (out ! i)"
proof -
  from whileLoop_converged [OF conv] i
  have none: "shiftTask (taskMapOf out) (out ! i) = Inr None" by simp
  let ?m = "maxDependencyEnd (taskMapOf out) (dependencies (out ! i))"
  from pos have m: "0 < ?m"
    by (simp add: maxDependencyEnd_pos_iff list_ex_iff)
  then have "dependencies (out ! i) \<noteq> []"
    by (auto simp: maxDependencyEnd_def)
  from s obtain c where c: "getTime (startDate (out ! i)) = Some c" by blast
  with none m \<open>dependencies (out ! i) \<noteq> []\<close> have ge: "?m + msPerDay \<le> c"
    by (simp add: shiftTask_None_iff)
  have "e < c" if "e \<in> set (resolvedEnds (taskMapOf out) (dependencies (out ! i)))" for e
  proof -
    from that have "e \<le> ?m"
      using maxDependencyEnd_upper by (fastforce simp: set_resolvedEnds)
    with ge msPerDay_pos show ?thesis by simp
  qed
  with c have "startsAfterDependencies (taskMapOf out) (out ! i)"
    by (simp add: startsAfterDependencies_def list_all_iff)
  moreover from conv have "cascadeSchedule tasks = Inr out"
    by (simp add: cascadeSchedule_def)
  ultimately show ?thesis by simp
qed

theorem cascadeSchedule_converged_finish_to_start_witness:
  "whileLoop [mkTask ''A'' 19631 19635 [], mkTask ''B'' 19633 19640 [''A'']] True 0 =
     Inr ([mkTask ''A'' 19631 19635 [], mkTask ''B'' 19636 19643 [''A'']],
          False, 2) \<and>
   cascadeSchedule [mkTask ''A'' 19631 19635 [], mkTask ''B'' 19633 19640 [''A'']] =
     Inr [mkTask ''A'' 19631 19635 [], mkTask ''B'' 19636 19643 [''A'']] \<and>
   startsAfterDependencies
     (taskMapOf [mkTask ''A'' 19631 19635 [], mkTask ''B'' 19636 19643 [''A'']])
     (mkTask ''B'' 19636 19643 [''A''])"
proof -
  let ?out = "[mkTask ''A'' 19631 19635 [], mkTask ''B'' 19636 19643 [''A'']]"
  have h1: "whileLoop [mkTask ''A'' 19631 19635 [], mkTask ''B'' 19633 19640 [''A'']] True 0 =
     Inr (?out, False, 2)"
    by code_simp
  have h2: "1 < length ?out" by simp
  have h3: "getTime (startDate (?out ! 1)) \<noteq> None" by code_simp
  have h4: "list_ex (\<lambda>e. 0 < e) (resolvedEnds (taskMapOf ?out) (dependencies (?out ! 1)))"
    by code_simp
  from cascadeSchedule_converged_finish_to_start [OF h1 h2 h3 h4] h1 show ?thesis by simp
qed




text \<open>
  Claim C3 fails on the code in one respect: the suggested date is the dependency's end
  date plus one day only where the host's clocks do not go forward during the day added.
  \<^verbatim>\<open>setDate(getDate() + 1)\<close> adds a local calendar day to a date that was parsed as
  midnight UTC; on the day daylight saving time starts that is 23 hours, and the UTC date
  printed by \<^verbatim>\<open>toISOString\<close> is still the dependency's end date. In the time zone
  Europe/Berlin, for a dependency that ends on 2023-03-26, \<open>checkDependencies\<close> suggests
  2023-03-26 as the new start date.
\<close>

theorem checkDependencies_suggests_end_date_when_clocks_go_forward:
  "checkDependencies europeBerlinSpring2023 (mkTask ''A'' 19440 19445 [''B''])
     [mkTask ''A'' 19440 19445 [''B''], mkTask ''B'' 19430 19442 []] =
   Inr (Some \<lparr>dependency = mkTask ''B'' 19430 19442 [], suggestedDate = ISODate 19442\<rparr>) \<and>
   endDate (mkTask ''B'' 19430 19442 []) = ISODate 19442"
  by code_simp

text \<open>
  The part of claim C3 that holds. For any host time zone, \<open>checkDependencies\<close> returns
  null when no dependency id resolves to a task ending on or after the start of the
  updated task; otherwise it names the task of the first such id (in the stored order of
  the ids), and, if no clocks go forward during the day after that task's end, suggests
  the day after its end date.
\<close>

theorem checkDependencies_first_violation:
  "(find (violatedBy updatedTask allTasks) (dependencies updatedTask) = None \<longrightarrow>
      checkDependencies tza updatedTask allTasks = Inr None) \<and>
   (find (violatedBy updatedTask allTasks) (dependencies updatedTask) = Some depId \<longrightarrow>
      (\<exists>depTask d.
         find (\<lambda>t. id_task t = depId) allTasks = Some depTask \<and>
         endDate depTask = ISODate d \<and>
         (steadyOffset tza (d * msPerDay) \<and> d + 1 < 100000000 \<longrightarrow>
            checkDependencies tza updatedTask allTasks =
              Inr (Some \<lparr>dependency = depTask, suggestedDate = ISODate (d + 1)\<rparr>))))"
proof (intro conjI impI)
  assume "find (violatedBy updatedTask allTasks) (dependencies updatedTask) = None"
  then show "checkDependencies tza updatedTask allTasks = Inr None"
    by (simp add: checkDependencies_def checkLoop_no_violation)
next
  assume f: "find (violatedBy updatedTask allTasks) (dependencies updatedTask) = Some depId"
  then have ne: "length (dependencies updatedTask) > 0" by (cases "dependencies updatedTask") auto
  from checkLoop_first_violation [OF f, of tza] obtain depTask e where
    dep: "find (\<lambda>t. id_task t = depId) allTasks = Some depTask" and
    e: "getTime (endDate depTask) = Some e" and
    run: "checkLoop tza updatedTask allTasks (dependencies updatedTask) =
             (case setDateNextDay tza e of
                None \<Rightarrow> Inl RangeError
              | Some suggested \<Rightarrow>
                  Inr (Some \<lparr>dependency = depTask,
                             suggestedDate = ISODate (suggested div msPerDay)\<rparr>))"
    by blast
  from e obtain d where d: "endDate depTask = ISODate d" "e = d * msPerDay"
    "\<bar>d * msPerDay\<bar> \<le> maxTime"
    by (auto simp: getTime_Some_iff)
  from d(3) have lo: "- 100000000 \<le> d" by (simp add: msPerDay_def maxTime_def)
  have "checkDependencies tza updatedTask allTasks =
          Inr (Some \<lparr>dependency = depTask, suggestedDate = ISODate (d + 1)\<rparr>)"
    if "steadyOffset tza (d * msPerDay) \<and> d + 1 < 100000000"
  proof -
    from setDateNextDay_steady [of tza d] that lo obtain u where
      "setDateNextDay tza (d * msPerDay) = Some u" "u div msPerDay = d + 1" by blast
    with run d(2) ne show ?thesis by (simp add: checkDependencies_def)
  qed
  with dep d(1) show "\<exists>depTask d.
         find (\<lambda>t. id_task t = depId) allTasks = Some depTask \<and>
         endDate depTask = ISODate d \<and>
         (steadyOffset tza (d * msPerDay) \<and> d + 1 < 100000000 \<longrightarrow>
            checkDependencies tza updatedTask allTasks =
              Inr (Some \<lparr>dependency = depTask, suggestedDate = ISODate (d + 1)\<rparr>))"
    by blast
qed

theorem checkDependencies_first_violation_witness:
  "find (violatedBy (mkTask ''A'' 19631 19635 [''B''])
           [mkTask ''A'' 19631 19635 [''B''], mkTask ''B'' 19631 19640 []])
        (dependencies (mkTask ''A'' 19631 19635 [''B''])) = Some ''B'' \<and>
   steadyOffset (fixedOffset 28800000) (19640 * msPerDay) \<and>
   checkDependencies (fixedOffset 28800000) (mkTask ''A'' 19631 19635 [''B''])
     [mkTask ''A'' 19631 19635 [''B''], mkTask ''B'' 19631 19640 []] =
   Inr (Some \<lparr>dependency = mkTask ''B'' 19631 19640 [], suggestedDate = ISODate 19641\<rparr>) \<and>
   find (violatedBy (mkTask ''C'' 19641 19645 [''B''])
           [mkTask ''C'' 19641 19645 [''B''], mkTask ''B'' 19631 19640 []])
        (dependencies (mkTask ''C'' 19641 19645 [''B''])) = None \<and>
   checkDependencies (fixedOffset 28800000) (mkTask ''C'' 19641 19645 [''B''])
     [mkTask ''C'' 19641 19645 [''B''], mkTask ''B'' 19631 19640 []] = Inr None"
proof -
  let ?A = "mkTask ''A'' 19631 19635 [''B'']"
  let ?B = "mkTask ''B'' 19631 19640 []"
  let ?C = "mkTask ''C'' 19641 19645 [''B'']"
  let ?tz = "fixedOffset 28800000"
  have f: "find (violatedBy ?A [?A, ?B]) (dependencies ?A) = Some ''B''" by code_simp
  have g: "find (\<lambda>t. id_task t = ''B'') [?A, ?B] = Some ?B" by code_simp
  have e: "endDate ?B = ISODate 19640" by (simp add: mkTask_def)
  have s: "steadyOffset ?tz (19640 * msPerDay)" by (rule steadyOffset_fixedOffset)
  have n: "find (violatedBy ?C [?C, ?B]) (dependencies ?C) = None" by code_simp
  from checkDependencies_first_violation
    [where updatedTask = ?A and allTasks = "[?A, ?B]" and depId = "''B''" and tza = ?tz] f
  obtain depTask d where
    "find (\<lambda>t. id_task t = ''B'') [?A, ?B] = Some depTask" "endDate depTask = ISODate d"
    "steadyOffset ?tz (d * msPerDay) \<and> d + 1 < 100000000 \<longrightarrow>
       checkDependencies ?tz ?A [?A, ?B] =
         Inr (Some \<lparr>dependency = depTask, suggestedDate = ISODate (d + 1)\<rparr>)"
    by blast
  with g e s have 1: "checkDependencies ?tz ?A [?A, ?B] =
      Inr (Some \<lparr>dependency = ?B, suggestedDate = ISODate 19641\<rparr>)"
    by simp
  from checkDependencies_first_violation
    [where updatedTask = ?C and allTasks = "[?C, ?B]" and tza = ?tz] n
  have 2: "checkDependencies ?tz ?C [?C, ?B] = Inr None" by blast
  from f s 1 n 2 show ?thesis by simp
qed

text \<open>
  Claim C4. \<open>cascadeSchedule\<close> terminates on every input, cyclic dependencies included: the
  \<^verbatim>\<open>while\<close> loop is a total function (its termination is proved with the measure
  \<open>50 - iterations\<close>), it is left either by a RangeError or with between 1 and 50 passes
  done, and the result is a function of the input. On the cycle "A depends on B, B depends
  on A" the loop runs exactly 50 passes and returns both tasks moved by 50 days.
\<close>

theorem cascadeSchedule_bounded_passes:
  "(case whileLoop (map (\<lambda>t. t) tasks) True 0 of
      Inl e \<Rightarrow> cascadeSchedule tasks = Inl RangeError
    | Inr (currentTasks, hasChanged, iterations) \<Rightarrow>
        1 \<le> iterations \<and> iterations \<le> 50 \<and> cascadeSchedule tasks = Inr currentTasks) \<and>
   whileLoop [mkTask ''A'' 10 10 [''B''], mkTask ''B'' 10 10 [''A'']] True 0 =
     Inr ([mkTask ''A'' 60 60 [''B''], mkTask ''B'' 60 60 [''A'']], True, 50)"
proof
  show "case whileLoop (map (\<lambda>t. t) tasks) True 0 of
      Inl e \<Rightarrow> cascadeSchedule tasks = Inl RangeError
    | Inr (currentTasks, hasChanged, iterations) \<Rightarrow>
        1 \<le> iterations \<and> iterations \<le> 50 \<and> cascadeSchedule tasks = Inr currentTasks"
  proof (cases "whileLoop (map (\<lambda>t. t) tasks) True 0")
    case (Inl e)
    then show ?thesis by (cases e) (simp add: cascadeSchedule_def)
  next
    case (Inr r)
    obtain out ch n where r: "r = (out, ch, n)" by (cases r)
    from whileLoop_iterations [of "map (\<lambda>t. t) tasks" True 0 out ch n] Inr r
    have "1 \<le> n \<and> n \<le> 50" by simp
    with Inr r show ?thesis by (simp add: cascadeSchedule_def)
  qed
next
  show "whileLoop [mkTask ''A'' 10 10 [''B''], mkTask ''B'' 10 10 [''A'']] True 0 =
     Inr ([mkTask ''A'' 60 60 [''B''], mkTask ''B'' 60 60 [''A'']], True, 50)"
    by code_simp
qed

text \<open>
  Claim C5. \<open>cascadeSchedule\<close> preserves each task's duration: the output has the tasks of
  the input in the same positions, with the same ids, and each output task has its start
  and end date moved by one and the same number \<open>k \<ge> 0\<close> of whole days, so that
  \<open>endDate - startDate\<close> is what it was.
\<close>

theorem cascadeSchedule_duration_preserved:
  assumes "cascadeSchedule tasks = Inr out"
  shows "length out = length tasks \<and>
         (\<forall>i<length tasks.
            id_task (out ! i) = id_task (tasks ! i) \<and>
            durationDays (out ! i) = durationDays (tasks ! i) \<and>
            (\<exists>k\<ge>0. startDate (out ! i) = plusDays k (startDate (tasks ! i)) \<and>
                   endDate (out ! i) = plusDays k (endDate (tasks ! i))))"
  using cascadeSchedule_movedLater [OF assms]
  by (simp add: movedLater_durationDays movedLater_id movedLater_dates)

theorem cascadeSchedule_duration_preserved_witness:
  "cascadeSchedule [mkTask ''A'' 19631 19635 [], mkTask ''B'' 19633 19640 [''A'']] =
     Inr [mkTask ''A'' 19631 19635 [], mkTask ''B'' 19636 19643 [''A'']] \<and>
   durationDays (mkTask ''B'' 19636 19643 [''A'']) =
     durationDays (mkTask ''B'' 19633 19640 [''A''])"
proof -
  have h: "cascadeSchedule [mkTask ''A'' 19631 19635 [], mkTask ''B'' 19633 19640 [''A'']] =
     Inr [mkTask ''A'' 19631 19635 [], mkTask ''B'' 19636 19643 [''A'']]"
    by code_simp
  from cascadeSchedule_duration_preserved [OF h, THEN conjunct2, rule_format, of 1] h
  show ?thesis by simp
qed

text \<open>
  Claim C6, as stated, fails: a task that ends before it starts is returned as it is.
\<close>

theorem cascadeSchedule_keeps_inverted_dates:
  "cascadeSchedule [mkTask ''A'' 19635 19631 []] = Inr [mkTask ''A'' 19635 19631 []] \<and>
   \<not> datesOrdered (mkTask ''A'' 19635 19631 [])"
  by code_simp

text \<open>
  Claim C6, amended. \<open>cascadeSchedule\<close> neither breaks nor restores the ordering of a task's
  two dates: it moves both by the same number of days, so an output task has
  \<open>startDate <= endDate\<close> exactly when the input task in the same position has.
\<close>

theorem cascadeSchedule_date_order_unchanged:
  assumes "cascadeSchedule tasks = Inr out"
  shows "length out = length tasks \<and>
         (\<forall>i<length tasks. datesOrdered (out ! i) = datesOrdered (tasks ! i))"
  using cascadeSchedule_movedLater [OF assms] by (simp add: movedLater_datesOrdered)

theorem cascadeSchedule_date_order_unchanged_witness:
  "cascadeSchedule [mkTask ''A'' 19631 19635 [], mkTask ''B'' 19640 19633 [''A'']] =
     Inr [mkTask ''A'' 19631 19635 [], mkTask ''B'' 19640 19633 [''A'']] \<and>
   datesOrdered (mkTask ''A'' 19631 19635 []) \<and>
   \<not> datesOrdered (mkTask ''B'' 19640 19633 [''A''])"
proof -
  have h: "cascadeSchedule [mkTask ''A'' 19631 19635 [], mkTask ''B'' 19640 19633 [''A'']] =
     Inr [mkTask ''A'' 19631 19635 [], mkTask ''B'' 19640 19633 [''A'']]"
    by code_simp
  have a: "datesOrdered (mkTask ''A'' 19631 19635 [])" by code_simp
  have b: "\<not> datesOrdered (mkTask ''B'' 19640 19633 [''A''])" by code_simp
  from cascadeSchedule_date_order_unchanged [OF h, THEN conjunct2, rule_format, of 1] h a b
  show ?thesis by simp
qed




text \<open>
  Claim C8. The merge step of \<open>handleConfirmChanges\<close> maps each existing task for which
  there is a change with its id (the first such change) to the task with the change's new
  start and end date and, when the change carries a non-empty new assignee, that assignee;
  status, gmpCritical, category and dependencies are untouched. The new tasks follow with
  \<open>isNew\<close> and \<open>reason\<close> removed, so the merged list has the length of the old list plus the
  number of new tasks. The merged list is passed through \<open>cascadeSchedule\<close>, which, when it
  returns, keeps the length and every field other than the two dates.
\<close>

theorem handleConfirmChanges_merge:
  "length (mergedTasks prevTasks changes newTasks) = length prevTasks + length newTasks \<and>
   (\<forall>i<length prevTasks.
      mergedTasks prevTasks changes newTasks ! i =
        (case find (\<lambda>c. taskId c = id_task (prevTasks ! i)) changes of
           None \<Rightarrow> prevTasks ! i
         | Some change \<Rightarrow>
             (prevTasks ! i)\<lparr>startDate := newStartDate change, endDate := newEndDate change,
               assignee := (case newAssignee change of
                              None \<Rightarrow> assignee (prevTasks ! i)
                            | Some a \<Rightarrow> if a = [] then assignee (prevTasks ! i) else a)\<rparr>) \<and>
      status (mergedTasks prevTasks changes newTasks ! i) = status (prevTasks ! i) \<and>
      gmpCritical (mergedTasks prevTasks changes newTasks ! i) = gmpCritical (prevTasks ! i) \<and>
      category (mergedTasks prevTasks changes newTasks ! i) = category (prevTasks ! i) \<and>
      dependencies (mergedTasks prevTasks changes newTasks ! i) = dependencies (prevTasks ! i)) \<and>
   (\<forall>j<length newTasks.
      mergedTasks prevTasks changes newTasks ! (length prevTasks + j) =
        (newTasks ! j)\<lparr>isNew := None, reason := None\<rparr>) \<and>
   handleConfirmChanges prevTasks changes newTasks =
     cascadeSchedule (mergedTasks prevTasks changes newTasks) \<and>
   (\<forall>out. handleConfirmChanges prevTasks changes newTasks = Inr out \<longrightarrow>
      length out = length prevTasks + length newTasks \<and>
      (\<forall>i<length out. sameButDates (mergedTasks prevTasks changes newTasks ! i) (out ! i)))"
proof (intro conjI allI impI)
  show "length (mergedTasks prevTasks changes newTasks) = length prevTasks + length newTasks"
    by (simp add: mergedTasks_def)
next
  fix i assume i: "i < length prevTasks"
  then have m: "mergedTasks prevTasks changes newTasks ! i = applyChange changes (prevTasks ! i)"
    by (simp add: mergedTasks_def nth_append)
  show "mergedTasks prevTasks changes newTasks ! i =
        (case find (\<lambda>c. taskId c = id_task (prevTasks ! i)) changes of
           None \<Rightarrow> prevTasks ! i
         | Some change \<Rightarrow>
             (prevTasks ! i)\<lparr>startDate := newStartDate change, endDate := newEndDate change,
               assignee := (case newAssignee change of
                              None \<Rightarrow> assignee (prevTasks ! i)
                            | Some a \<Rightarrow> if a = [] then assignee (prevTasks ! i) else a)\<rparr>)"
    unfolding m by (simp add: applyChange_def split: option.splits)
  show "status (mergedTasks prevTasks changes newTasks ! i) = status (prevTasks ! i)"
    "gmpCritical (mergedTasks prevTasks changes newTasks ! i) = gmpCritical (prevTasks ! i)"
    "category (mergedTasks prevTasks changes newTasks ! i) = category (prevTasks ! i)"
    "dependencies (mergedTasks prevTasks changes newTasks ! i) = dependencies (prevTasks ! i)"
    unfolding m by (simp_all add: applyChange_fields)
next
  fix j assume "j < length newTasks"
  then show "mergedTasks prevTasks changes newTasks ! (length prevTasks + j) =
        (newTasks ! j)\<lparr>isNew := None, reason := None\<rparr>"
    by (simp add: mergedTasks_def nth_append finalizeNewTask_def)
next
  show "handleConfirmChanges prevTasks changes newTasks =
     cascadeSchedule (mergedTasks prevTasks changes newTasks)"
    by (simp add: handleConfirmChanges_def canEditTasks_def currentUserRole_def)
next
  fix out assume "handleConfirmChanges prevTasks changes newTasks = Inr out"
  then have run: "cascadeSchedule (mergedTasks prevTasks changes newTasks) = Inr out"
    by (simp add: handleConfirmChanges_def canEditTasks_def currentUserRole_def)
  note M = cascadeSchedule_movedLater [OF run]
  from M show "length out = length prevTasks + length newTasks"
    by (simp add: mergedTasks_def)
  fix i assume "i < length out"
  with M show "sameButDates (mergedTasks prevTasks changes newTasks ! i) (out ! i)"
    by (simp add: movedLater_sameButDates)
qed

theorem handleConfirmChanges_merge_witness:
  "handleConfirmChanges [mkTask ''A'' 19631 19635 [], mkTask ''B'' 19636 19640 [''A'']]
     [mkChange ''A'' 19633 19638 (Some ''Li'')]
     [(mkTask ''N'' 19650 19652 [])\<lparr>isNew := Some True, reason := Some ''new step''\<rparr>] =
   Inr [(mkTask ''A'' 19633 19638 [])\<lparr>duration := 5, assignee := ''Li''\<rparr>,
        (mkTask ''B'' 19639 19643 [''A'']),
        mkTask ''N'' 19650 19652 []] \<and>
   length [(mkTask ''A'' 19633 19638 [])\<lparr>duration := 5, assignee := ''Li''\<rparr>,
        (mkTask ''B'' 19639 19643 [''A'']),
        mkTask ''N'' 19650 19652 []] = length [mkTask ''A'' 19631 19635 [], mkTask ''B'' 19636 19640 [''A'']] + 1"
proof -
  let ?prev = "[mkTask ''A'' 19631 19635 [], mkTask ''B'' 19636 19640 [''A'']]"
  let ?cs = "[mkChange ''A'' 19633 19638 (Some ''Li'')]"
  let ?new = "[(mkTask ''N'' 19650 19652 [])\<lparr>isNew := Some True, reason := Some ''new step''\<rparr>]"
  let ?out = "[(mkTask ''A'' 19633 19638 [])\<lparr>duration := 5, assignee := ''Li''\<rparr>,
        (mkTask ''B'' 19639 19643 [''A'']),
        mkTask ''N'' 19650 19652 []]"
  have h: "handleConfirmChanges ?prev ?cs ?new = Inr ?out" by code_simp
  from handleConfirmChanges_merge [of ?prev ?cs ?new] h have "length ?out = length ?prev + length ?new"
    by blast
  with h show ?thesis by simp
qed

text \<open>
  Claim C9. \<open>cascadeSchedule\<close> writes only \<open>startDate\<close> and \<open>endDate\<close>: the output has the
  length and the order of the input, and each output task agrees with the input task in
  the same position on every other field. In the store model, when \<open>cascadeSchedule\<close>
  returns, every object and every array that existed before the call is unchanged (the
  caller's array and its task objects among them), the array returned and all the task
  objects in it were created by the call, and the tasks it holds are those computed by the
  value-level \<open>cascadeSchedule\<close> from the tasks of the caller's array.
\<close>

theorem cascadeSchedule_frame:
  "(cascadeSchedule ts = Inr out \<longrightarrow>
      length out = length ts \<and>
      (\<forall>i<length ts.
         sameButDates (ts ! i) (out ! i) \<and>
         id_task (out ! i) = id_task (ts ! i) \<and> name (out ! i) = name (ts ! i) \<and>
         assignee (out ! i) = assignee (ts ! i) \<and> category (out ! i) = category (ts ! i) \<and>
         duration (out ! i) = duration (ts ! i) \<and> status (out ! i) = status (ts ! i) \<and>
         dependencies (out ! i) = dependencies (ts ! i) \<and>
         gmpCritical (out ! i) = gmpCritical (ts ! i))) \<and>
   (tasks < length (arrays st) \<and> (\<forall>r \<in> set (arrays st ! tasks). r < length (objects st)) \<and>
    cascadeScheduleS tasks st = Inr (result, st') \<longrightarrow>
      cascadeSchedule (absTasks st tasks) = Inr (absTasks st' result) \<and>
      freshResult st st' result)"
proof (rule conjI; rule impI)
  assume run: "cascadeSchedule ts = Inr out"
  from cascadeSchedule_sameButDates [OF run]
  show "length out = length ts \<and>
      (\<forall>i<length ts.
         sameButDates (ts ! i) (out ! i) \<and>
         id_task (out ! i) = id_task (ts ! i) \<and> name (out ! i) = name (ts ! i) \<and>
         assignee (out ! i) = assignee (ts ! i) \<and> category (out ! i) = category (ts ! i) \<and>
         duration (out ! i) = duration (ts ! i) \<and> status (out ! i) = status (ts ! i) \<and>
         dependencies (out ! i) = dependencies (ts ! i) \<and>
         gmpCritical (out ! i) = gmpCritical (ts ! i))"
    using sameButDates_fields by blast
next
  assume a: "tasks < length (arrays st) \<and>
    (\<forall>r \<in> set (arrays st ! tasks). r < length (objects st)) \<and>
    cascadeScheduleS tasks st = Inr (result, st')"
  then have t: "tasks < length (arrays st)"
    and v: "\<forall>r \<in> set (arrays st ! tasks). r < length (objects st)"
    and run: "cascadeScheduleS tasks st = Inr (result, st')"
    by simp_all
  note S = cascadeScheduleS_sim [OF t v]
  show "cascadeSchedule (absTasks st tasks) = Inr (absTasks st' result) \<and>
    freshResult st st' result"
    using S run by (cases "cascadeSchedule (absTasks st tasks)") auto
qed

theorem cascadeSchedule_frame_witness:
  "cascadeSchedule [mkTask ''A'' 19631 19635 [], mkTask ''B'' 19633 19640 [''A'']] =
     Inr [mkTask ''A'' 19631 19635 [], mkTask ''B'' 19636 19643 [''A'']] \<and>
   sameButDates (mkTask ''B'' 19633 19640 [''A'']) (mkTask ''B'' 19636 19643 [''A'']) \<and>
   cascadeScheduleS 0 exStore = Inr (1, exStore') \<and>
   absTasks exStore' 1 = [mkTask ''A'' 19631 19635 [], mkTask ''B'' 19636 19643 [''A'']] \<and>
   freshResult exStore exStore' 1"
proof -
  let ?ts = "[mkTask ''A'' 19631 19635 [], mkTask ''B'' 19633 19640 [''A'']]"
  let ?out = "[mkTask ''A'' 19631 19635 [], mkTask ''B'' 19636 19643 [''A'']]"
  have h: "cascadeSchedule ?ts = Inr ?out" by code_simp
  have s: "cascadeScheduleS 0 exStore = Inr (1, exStore')" by code_simp
  have t: "0 < length (arrays exStore)" by (simp add: exStore_def)
  have v: "\<forall>r \<in> set (arrays exStore ! 0). r < length (objects exStore)"
    by (simp add: exStore_def)
  have ab: "absTasks exStore' 1 = ?out" by code_simp
  note T = cascadeSchedule_frame [of ?ts ?out 0 exStore 1 exStore']
  from T [THEN conjunct1, rule_format, OF h, THEN conjunct2, rule_format, of 1]
  have "sameButDates (?ts ! 1) (?out ! 1)" by simp
  moreover from T t v s have "freshResult exStore exStore' 1" by blast
  ultimately show ?thesis using h s ab by simp
qed

text \<open>
  Claim C10, as stated, fails in its last clause: a dependency that ends on or before
  1970-01-01 may itself be moved past that day by the cascade, and then constrains its
  dependant in a later pass. T (days -30 to -25) depends on X (days -40 to -20), which
  depends on Y (2023-10-01 to 2023-10-10): the first pass moves X behind Y, the second
  moves T behind X.
\<close>

theorem cascadeSchedule_epoch_dependency_moved:
  "cascadeSchedule [mkTask ''T'' (-30) (-25) [''X''], mkTask ''X'' (-40) (-20) [''Y''],
                    mkTask ''Y'' 19631 19640 []] =
     Inr [mkTask ''T'' 19662 19667 [''X''], mkTask ''X'' 19641 19661 [''Y''],
          mkTask ''Y'' 19631 19640 []] \<and>
   onOrBeforeEpoch (endDate (mkTask ''X'' (-40) (-20) [''Y''])) \<and>
   startDate (mkTask ''T'' 19662 19667 [''X'']) \<noteq> startDate (mkTask ''T'' (-30) (-25) [''X''])"
  by code_simp

text \<open>
  Claim C10, amended. The maximum over the dependencies starts at 0, the time value of
  1970-01-01, and a shift is applied only when it ends above 0. So in every pass a
  dependency that ends on or before 1970-01-01 is treated exactly like an unresolved id:
  taking such tasks out of the task map changes nothing in what the loop body does for any
  task. A task keeps its original dates, whether or not it starts after its dependencies,
  when every task that carries one of its dependency ids still ends on or before
  1970-01-01 in the returned list.
\<close>

theorem cascadeSchedule_epoch_sentinel:
  "shiftTask (unresolveEpochEnds taskMap) t = shiftTask taskMap t \<and>
   (cascadeSchedule tasks = Inr out \<and> i < length tasks \<and>
    (\<forall>dep \<in> set out. id_task dep \<in> set (dependencies (tasks ! i)) \<longrightarrow>
        onOrBeforeEpoch (endDate dep)) \<longrightarrow>
      out ! i = tasks ! i)"
  using shiftTask_unresolveEpochEnds cascadeSchedule_epoch_output by blast

theorem cascadeSchedule_epoch_sentinel_witness:
  "cascadeSchedule [mkTask ''A'' (-30) (-20) [''B''], mkTask ''B'' (-20) 0 [],
                    mkTask ''C'' 19631 19635 [], mkTask ''D'' 19633 19640 [''C'']] =
     Inr [mkTask ''A'' (-30) (-20) [''B''], mkTask ''B'' (-20) 0 [],
          mkTask ''C'' 19631 19635 [], mkTask ''D'' 19636 19643 [''C'']] \<and>
   onOrBeforeEpoch (endDate (mkTask ''B'' (-20) 0 [])) \<and>
   \<not> startsAfterDependencies
        (taskMapOf [mkTask ''A'' (-30) (-20) [''B''], mkTask ''B'' (-20) 0 [],
                    mkTask ''C'' 19631 19635 [], mkTask ''D'' 19636 19643 [''C'']])
        (mkTask ''A'' (-30) (-20) [''B''])"
proof -
  let ?ts = "[mkTask ''A'' (-30) (-20) [''B''], mkTask ''B'' (-20) 0 [],
              mkTask ''C'' 19631 19635 [], mkTask ''D'' 19633 19640 [''C'']]"
  let ?out = "[mkTask ''A'' (-30) (-20) [''B''], mkTask ''B'' (-20) 0 [],
               mkTask ''C'' 19631 19635 [], mkTask ''D'' 19636 19643 [''C'']]"
  have a: "cascadeSchedule ?ts = Inr ?out" by code_simp
  have b: "\<forall>dep \<in> set ?out. id_task dep \<in> set (dependencies (?ts ! 0)) \<longrightarrow>
             onOrBeforeEpoch (endDate dep)"
    by (simp add: mkTask_def onOrBeforeEpoch_def)
  have c: "onOrBeforeEpoch (endDate (mkTask ''B'' (-20) 0 []))" by code_simp
  have d: "\<not> startsAfterDependencies (taskMapOf ?out) (mkTask ''A'' (-30) (-20) [''B''])"
    by code_simp
  have "?out ! 0 = ?ts ! 0"
    using cascadeSchedule_epoch_sentinel [of _ _ ?ts ?out 0] a b by simp
  with a c d show ?thesis by simp
qed

section \<open>The two models of cascadeSchedule agree\<close>

text \<open>
  The store-level model refines the value-level one: on a store whose array \<open>tasks\<close> holds
  valid references, \<open>cascadeScheduleS\<close> throws exactly when \<open>cascadeSchedule\<close> throws on the
  task values of that array, and otherwise returns a new array holding the task values
  that \<open>cascadeSchedule\<close> returns.
\<close>

theorem cascadeScheduleS_refines_cascadeSchedule:
  "tasks < length (arrays st) \<and> (\<forall>r \<in> set (arrays st ! tasks). r < length (objects st)) \<longrightarrow>
   (case cascadeSchedule (absTasks st tasks) of
      Inl e \<Rightarrow> cascadeScheduleS tasks st = Inl e
    | Inr out \<Rightarrow>
        (\<exists>st'. cascadeScheduleS tasks st = Inr (length (arrays st), st') \<and>
               absTasks st' (length (arrays st)) = out))"
proof
  assume "tasks < length (arrays st) \<and> (\<forall>r \<in> set (arrays st ! tasks). r < length (objects st))"
  then have t: "tasks < length (arrays st)"
    and v: "\<forall>r \<in> set (arrays st ! tasks). r < length (objects st)"
    by simp_all
  from cascadeScheduleS_sim [OF t v] show
    "case cascadeSchedule (absTasks st tasks) of
      Inl e \<Rightarrow> cascadeScheduleS tasks st = Inl e
    | Inr out \<Rightarrow>
        (\<exists>st'. cascadeScheduleS tasks st = Inr (length (arrays st), st') \<and>
               absTasks st' (length (arrays st)) = out)"
    by (cases "cascadeSchedule (absTasks st tasks)") auto
qed

theorem cascadeScheduleS_refines_cascadeSchedule_witness:
  "cascadeSchedule (absTasks exStore 0) =
     Inr [mkTask ''A'' 19631 19635 [], mkTask ''B'' 19636 19643 [''A'']] \<and>
   (\<exists>st'. cascadeScheduleS 0 exStore = Inr (length (arrays exStore), st') \<and>
          absTasks st' (length (arrays exStore)) =
            [mkTask ''A'' 19631 19635 [], mkTask ''B'' 19636 19643 [''A'']])"
proof -
  have h: "cascadeSchedule (absTasks exStore 0) =
     Inr [mkTask ''A'' 19631 19635 [], mkTask ''B'' 19636 19643 [''A'']]"
    by code_simp
  have t: "0 < length (arrays exStore)" by (simp add: exStore_def)
  have v: "\<forall>r \<in> set (arrays exStore ! 0). r < length (objects exStore)"
    by (simp add: exStore_def)
  from cascadeScheduleS_refines_cascadeSchedule [of 0 exStore] t v h show ?thesis by simp
qed

end
